theory Spec2Isabelle
  imports Main "HOL-Library.AList"
begin

section \<open>Python values used by \<open>run_schedule\<close>\<close>

text \<open>
  The worker and shift counts are Python integers (\<open>int\<close>); the loop indices drawn from
  \<open>range(...)\<close> are never negative and index lists, so they are \<open>nat\<close>. The two
  exceptions the function can raise are a division by zero in line 92 and an index out
  of range when \<open>shift_requests\<close> is smaller than the counts say.
\<close>

datatype py_error = ZeroDivisionError | IndexError

definition py_range :: "int \<Rightarrow> nat list" where
  "py_range n = [0..<nat n]"

definition getitem :: "'a list \<Rightarrow> nat \<Rightarrow> py_error + 'a" where
  "getitem xs i = (if i < length xs then Inr (xs ! i) else Inl IndexError)"

text \<open>\<open>shift_requests[n][d][s]\<close>: the first lookup that is out of range raises.\<close>

definition request_at :: "bool list list list \<Rightarrow> nat \<Rightarrow> nat \<Rightarrow> nat \<Rightarrow> py_error + bool" where
  "request_at shift_requests n d s =
     (case getitem shift_requests n of
        Inl e \<Rightarrow> Inl e
      | Inr week \<Rightarrow>
          (case getitem week d of
             Inl e \<Rightarrow> Inl e
           | Inr day \<Rightarrow> getitem day s))"

text \<open>\<open>str\<close> of an integer, in decimal.\<close>

fun str_nat :: "nat \<Rightarrow> string" where
  "str_nat n =
     (if n < 10 then [char_of (48 + n)]
      else str_nat (n div 10) @ [char_of (48 + n mod 10)])"

declare str_nat.simps [simp del]

definition str_int :: "int \<Rightarrow> string" where
  "str_int i = (if i < 0 then CHR ''-'' # str_nat (nat (- i)) else str_nat (nat i))"

section \<open>The constraint model\<close>

text \<open>
  \<open>shifts[(n, d, s)]\<close> is the Boolean variable of worker \<open>n\<close>, day \<open>d\<close> and shift \<open>s\<close>:
  a variable is identified with its key in the dictionary \<open>shifts\<close>. The model collects
  what \<open>NewBoolVar\<close>, \<open>AddExactlyOne\<close>, \<open>AddAtMostOne\<close>, \<open>Add\<close> and \<open>Maximize\<close> are
  given, in the order of the calls.
\<close>

type_synonym var = "nat \<times> nat \<times> nat"

datatype constraint =
    ExactlyOne "var list"
  | AtMostOne "var list"
  | LowerBound int "var list"
  | UpperBound "var list" int

record cp_model =
  variables :: "var list"
  constraints :: "constraint list"
  objective :: "(int \<times> var) list"

definition num_days :: int where
  "num_days = 7"

definition all_days :: "nat list" where
  "all_days = py_range num_days"

text \<open>Lines 73-76: one variable per worker, day and shift.\<close>

definition shift_vars :: "int \<Rightarrow> int \<Rightarrow> var list" where
  "shift_vars num_workers num_shifts =
     [(n, d, s). n \<leftarrow> py_range num_workers, d \<leftarrow> all_days, s \<leftarrow> py_range num_shifts]"

text \<open>Lines 79-81: each shift of each day is given to exactly one worker.\<close>

definition coverage_constraints :: "int \<Rightarrow> int \<Rightarrow> constraint list" where
  "coverage_constraints num_workers num_shifts =
     [ExactlyOne (map (\<lambda>n. (n, d, s)) (py_range num_workers)).
        d \<leftarrow> all_days, s \<leftarrow> py_range num_shifts]"

text \<open>Lines 84-86: a worker works at most one shift a day.\<close>

definition exclusivity_constraints :: "int \<Rightarrow> int \<Rightarrow> constraint list" where
  "exclusivity_constraints num_workers num_shifts =
     [AtMostOne (map (\<lambda>s. (n, d, s)) (py_range num_shifts)).
        n \<leftarrow> py_range num_workers, d \<leftarrow> all_days]"

text \<open>
  Lines 92-96: the bounds on the shifts of one worker. Python's \<open>//\<close> and \<open>%\<close> round
  towards minus infinity, as \<open>div\<close> and \<open>mod\<close> on \<open>int\<close> do; with no worker the
  division raises.
\<close>

definition shift_bounds :: "int \<Rightarrow> int \<Rightarrow> py_error + (int \<times> int)" where
  "shift_bounds num_workers num_shifts =
     (if num_workers = 0 then Inl ZeroDivisionError
      else
        let min_shifts_per_worker = (num_shifts * num_days) div num_workers;
            max_shifts_per_worker =
              (if num_shifts * num_days mod num_workers = 0 then min_shifts_per_worker
               else min_shifts_per_worker + 1)
        in Inr (min_shifts_per_worker, max_shifts_per_worker))"

text \<open>Lines 97-103: \<open>num_shifts_worked\<close> is the sum of the worker's variables of the week.\<close>

definition worker_vars :: "int \<Rightarrow> nat \<Rightarrow> var list" where
  "worker_vars num_shifts n = [(n, d, s). d \<leftarrow> all_days, s \<leftarrow> py_range num_shifts]"

definition fairness_constraints :: "int \<Rightarrow> int \<Rightarrow> int \<Rightarrow> int \<Rightarrow> constraint list" where
  "fairness_constraints num_workers num_shifts min_shifts_per_worker max_shifts_per_worker =
     concat (map (\<lambda>n. [LowerBound min_shifts_per_worker (worker_vars num_shifts n),
                        UpperBound (worker_vars num_shifts n) max_shifts_per_worker])
                 (py_range num_workers))"

text \<open>
  Lines 106-113: the objective is the sum of \<open>shift_requests[n][d][s] * shifts[(n, d, s)]\<close>.
  A request is a Python \<open>bool\<close>, which multiplies as 1 or 0. The sum reads the requests
  in the order of the loops and stops at the first lookup that raises.
\<close>

fun first_error :: "('e + 'a) list \<Rightarrow> 'e + 'a list" where
  "first_error [] = Inr []"
| "first_error (Inl e # xs) = Inl e"
| "first_error (Inr x # xs) = (case first_error xs of Inl e \<Rightarrow> Inl e | Inr ys \<Rightarrow> Inr (x # ys))"

definition objective_term :: "bool list list list \<Rightarrow> var \<Rightarrow> py_error + (int \<times> var)" where
  "objective_term shift_requests x =
     (case x of (n, d, s) \<Rightarrow>
        (case request_at shift_requests n d s of
           Inl e \<Rightarrow> Inl e
         | Inr b \<Rightarrow> Inr (if b then 1 else 0, (n, d, s))))"

definition objective_terms :: "int \<Rightarrow> int \<Rightarrow> bool list list list \<Rightarrow> py_error + (int \<times> var) list" where
  "objective_terms num_workers num_shifts shift_requests =
     first_error (map (objective_term shift_requests) (shift_vars num_workers num_shifts))"

text \<open>Lines 59-113 as a whole: the model, and the lower bound that line 136 prints.\<close>

definition build_model :: "int \<Rightarrow> int \<Rightarrow> bool list list list \<Rightarrow> py_error + (cp_model \<times> int)" where
  "build_model num_workers num_shifts shift_requests =
     (case shift_bounds num_workers num_shifts of
        Inl e \<Rightarrow> Inl e
      | Inr (min_shifts_per_worker, max_shifts_per_worker) \<Rightarrow>
          (case objective_terms num_workers num_shifts shift_requests of
             Inl e \<Rightarrow> Inl e
           | Inr terms \<Rightarrow>
               Inr (\<lparr>variables = shift_vars num_workers num_shifts,
                     constraints =
                       coverage_constraints num_workers num_shifts
                       @ exclusivity_constraints num_workers num_shifts
                       @ fairness_constraints num_workers num_shifts
                           min_shifts_per_worker max_shifts_per_worker,
                     objective = terms\<rparr>,
                    min_shifts_per_worker)))"

section \<open>The solving engine\<close>

text \<open>
  \<open>cp_model.CpSolver\<close> is a library outside the repository. \<open>run_schedule\<close> takes it as
  a parameter: a function from the model to the response that \<open>Solve\<close>, \<open>Value\<close>,
  \<open>ObjectiveValue\<close>, \<open>NumConflicts\<close>, \<open>NumBranches\<close> and \<open>WallTime\<close> read. The objective
  of this model is a sum of integers, so the contract speaks of its value as an \<open>int\<close>.
  \<open>ObjectiveValue\<close> and \<open>WallTime\<close> return floats, which the function only prints: the
  text Python prints for each (such as \<open>13.0\<close>, or \<open>-0.0\<close> for a maximum of zero) is
  part of the response as the engine gives it.
\<close>

datatype cp_status = UNKNOWN | MODEL_INVALID | FEASIBLE | INFEASIBLE | OPTIMAL

record cp_response =
  status :: cp_status
  solution :: "var \<Rightarrow> int"
  objective_value :: int
  objective_text :: string
  num_conflicts :: int
  num_branches :: int
  wall_time :: string

text \<open>What a constraint and the objective mean under an assignment of 0 or 1 to the variables.\<close>

fun holds :: "(var \<Rightarrow> int) \<Rightarrow> constraint \<Rightarrow> bool" where
  "holds v (ExactlyOne xs) = (sum_list (map v xs) = 1)"
| "holds v (AtMostOne xs) = (sum_list (map v xs) \<le> 1)"
| "holds v (LowerBound lo xs) = (lo \<le> sum_list (map v xs))"
| "holds v (UpperBound xs hi) = (sum_list (map v xs) \<le> hi)"

definition boolean_on :: "var list \<Rightarrow> (var \<Rightarrow> int) \<Rightarrow> bool" where
  "boolean_on xs v = list_all (\<lambda>x. v x = 0 \<or> v x = 1) xs"

definition feasible :: "cp_model \<Rightarrow> (var \<Rightarrow> int) \<Rightarrow> bool" where
  "feasible m v = (boolean_on (variables m) v \<and> list_all (holds v) (constraints m))"

definition objective_at :: "cp_model \<Rightarrow> (var \<Rightarrow> int) \<Rightarrow> int" where
  "objective_at m v = sum_list (map (\<lambda>(c, x). c * v x) (objective m))"

text \<open>
  Modelled from the spec: the contract of the solving engine (section 4.4), whose search
  is not part of the repository. An \<open>OPTIMAL\<close> or \<open>FEASIBLE\<close> response carries an
  assignment that satisfies the model and the objective's value there; an \<open>OPTIMAL\<close>
  one is a proven maximum; \<open>INFEASIBLE\<close> is answered only when no assignment satisfies
  the model. \<open>UNKNOWN\<close> promises nothing.
\<close>

definition cp_sat_sound :: "cp_model \<Rightarrow> cp_response \<Rightarrow> bool" where
  "cp_sat_sound m r =
     (((status r = OPTIMAL \<or> status r = FEASIBLE) \<longrightarrow>
         feasible m (solution r) \<and> objective_value r = objective_at m (solution r))
      \<and> (status r = OPTIMAL \<longrightarrow> (\<forall>v. feasible m v \<longrightarrow> objective_at m v \<le> objective_value r))
      \<and> (status r = INFEASIBLE \<longrightarrow> (\<forall>v. \<not> feasible m v)))"

section \<open>Reading the roster off the response\<close>

text \<open>
  Lines 118-137. \<open>df\<close> is a dictionary from the day to a dictionary from the shift to
  the worker's label; both keep the order in which keys were first set, so they are
  association lists, and \<open>df[d][s] = ...\<close> is \<open>AList.update\<close>. The printed lines are
  collected in order.
\<close>

definition worker_label :: "nat \<Rightarrow> string" where
  "worker_label n = ''Worker '' @ str_nat (n + 1)"

definition assigned_on :: "(var \<Rightarrow> int) \<Rightarrow> int \<Rightarrow> int \<Rightarrow> nat \<Rightarrow> (nat \<times> nat) list" where
  "assigned_on v num_workers num_shifts d =
     [(n, s). n \<leftarrow> py_range num_workers, s \<leftarrow> py_range num_shifts, v (n, d, s) = 1]"

definition work_line :: "bool list list list \<Rightarrow> nat \<Rightarrow> nat \<times> nat \<Rightarrow> string" where
  "work_line shift_requests d ns =
     (case ns of (n, s) \<Rightarrow>
        ''worker '' @ str_nat n @ '' works shift '' @ str_nat s @
        (if request_at shift_requests n d s = Inr True then '' (requested).''
         else '' (not requested).''))"

definition day_lines :: "bool list list list \<Rightarrow> (var \<Rightarrow> int) \<Rightarrow> int \<Rightarrow> int \<Rightarrow> nat \<Rightarrow> string list" where
  "day_lines shift_requests v num_workers num_shifts d =
     (''Day '' @ str_nat d)
     # map (work_line shift_requests d) (assigned_on v num_workers num_shifts d)
     @ ['''']"

definition day_dict :: "(var \<Rightarrow> int) \<Rightarrow> int \<Rightarrow> int \<Rightarrow> nat \<Rightarrow> (nat \<times> string) list" where
  "day_dict v num_workers num_shifts d =
     fold (\<lambda>(n, s) col. AList.update s (worker_label n) col)
          (assigned_on v num_workers num_shifts d) []"

definition statistics_lines :: "cp_response \<Rightarrow> string list" where
  "statistics_lines r =
     ['''', ''Statistics'',
      ''  - conflicts: '' @ str_int (num_conflicts r),
      ''  - branches : '' @ str_int (num_branches r),
      ''  - wall time: '' @ wall_time r @ ''s'']"

text \<open>
  Lines 147-150. \<open>pd.DataFrame(df)\<close> has one column per key of \<open>df\<close> and one row per key
  of the inner dictionaries; \<open>sort_index\<close> orders the rows by shift, \<open>reset_index\<close> turns
  the shift into a first column, which is renamed to \<open>Shift\<close> and shifted by one; a cell
  no inner dictionary sets is empty. With \<open>df = {}\<close> only the column \<open>Shift\<close> is left,
  and no row.
\<close>

record data_frame =
  columns :: "string list"
  rows :: "(int \<times> string option list) list"

definition day_name :: "nat \<Rightarrow> string" where
  "day_name d = [''Mon'', ''Tue'', ''Wed'', ''Thu'', ''Fri'', ''Sat'', ''Sun''] ! d"

definition to_frame :: "(nat \<times> (nat \<times> string) list) list \<Rightarrow> data_frame" where
  "to_frame df =
     \<lparr>columns = ''Shift'' # map (\<lambda>(d, col). day_name d) df,
      rows = map (\<lambda>s. (int s + 1, map (\<lambda>(d, col). map_of col s) df))
                 (sort (remdups (concat (map (\<lambda>(d, col). map fst col) df))))\<rparr>"

record schedule_output =
  printed :: "string list"
  table :: data_frame

definition run_schedule ::
  "(cp_model \<Rightarrow> cp_response) \<Rightarrow> int \<Rightarrow> int \<Rightarrow> bool list list list \<Rightarrow> py_error + schedule_output" where
  "run_schedule solve total_workers num_shifts shift_requests =
     (case build_model total_workers num_shifts shift_requests of
        Inl e \<Rightarrow> Inl e
      | Inr (model, min_shifts_per_worker) \<Rightarrow>
          let r = solve model;
              df = (if status r = OPTIMAL
                    then map (\<lambda>d. (d, day_dict (solution r) total_workers num_shifts d)) all_days
                    else []);
              out = (if status r = OPTIMAL
                     then ''Solution:''
                          # concat (map (day_lines shift_requests (solution r)
                                          total_workers num_shifts) all_days)
                          @ [''Number of shift requests met = '' @ objective_text r
                             @ '' (out of '' @ str_int (total_workers * min_shifts_per_worker)
                             @ '')'']
                     else [''No optimal solution found !''])
          in Inr \<lparr>printed = out @ statistics_lines r, table = to_frame df\<rparr>)"

section \<open>The properties the specification states\<close>

text \<open>
  An assignment says which variables are true. The response's assignment is read the way
  line 126 reads it: a variable is true when its value is 1.
\<close>

definition assigned :: "cp_response \<Rightarrow> var \<Rightarrow> bool" where
  "assigned r x = (solution r x = 1)"

definition workers_on :: "int \<Rightarrow> (var \<Rightarrow> bool) \<Rightarrow> nat \<Rightarrow> nat \<Rightarrow> nat set" where
  "workers_on N a d s = {n. n < nat N \<and> a (n, d, s)}"

definition coverage :: "int \<Rightarrow> int \<Rightarrow> (var \<Rightarrow> bool) \<Rightarrow> bool" where
  "coverage N S a = (\<forall>d<7. \<forall>s<nat S. card (workers_on N a d s) = 1)"

definition shifts_on :: "int \<Rightarrow> (var \<Rightarrow> bool) \<Rightarrow> nat \<Rightarrow> nat \<Rightarrow> nat set" where
  "shifts_on S a n d = {s. s < nat S \<and> a (n, d, s)}"

definition exclusivity :: "int \<Rightarrow> int \<Rightarrow> (var \<Rightarrow> bool) \<Rightarrow> bool" where
  "exclusivity N S a = (\<forall>n<nat N. \<forall>d<7. card (shifts_on S a n d) \<le> 1)"

definition week_of :: "int \<Rightarrow> (var \<Rightarrow> bool) \<Rightarrow> nat \<Rightarrow> (nat \<times> nat) set" where
  "week_of S a n = {(d, s). d < 7 \<and> s < nat S \<and> a (n, d, s)}"

definition fairness :: "int \<Rightarrow> int \<Rightarrow> int \<Rightarrow> int \<Rightarrow> (var \<Rightarrow> bool) \<Rightarrow> bool" where
  "fairness N S lo hi a = (\<forall>n<nat N. lo \<le> int (card (week_of S a n)) \<and> int (card (week_of S a n)) \<le> hi)"

definition requests_met :: "bool list list list \<Rightarrow> int \<Rightarrow> int \<Rightarrow> (var \<Rightarrow> bool) \<Rightarrow> nat" where
  "requests_met P N S a = card {(n, d, s). n < nat N \<and> d < 7 \<and> s < nat S \<and> a (n, d, s) \<and> P ! n ! d ! s}"

definition shape_ok :: "int \<Rightarrow> int \<Rightarrow> bool list list list \<Rightarrow> bool" where
  "shape_ok N S P = (length P = nat N \<and> (\<forall>w\<in>set P. length w = 7 \<and> (\<forall>c\<in>set w. length c = nat S)))"


text \<open>The bounds of section 4.2 of the specification, and a roster that meets all three constraints.\<close>

definition min_shifts :: "int \<Rightarrow> int \<Rightarrow> int" where
  "min_shifts N S = (S * 7) div N"

definition max_shifts :: "int \<Rightarrow> int \<Rightarrow> int" where
  "max_shifts N S = (if (S * 7) mod N = 0 then min_shifts N S else min_shifts N S + 1)"

definition valid_roster :: "int \<Rightarrow> int \<Rightarrow> (var \<Rightarrow> bool) \<Rightarrow> bool" where
  "valid_roster N S a =
     (coverage N S a \<and> exclusivity N S a \<and> fairness N S (min_shifts N S) (max_shifts N S) a)"

section \<open>Auxiliary definitions of the proofs\<close>

text \<open>The coefficient the objective gives a variable when every lookup succeeds.\<close>

definition request_coeff :: "bool list list list \<Rightarrow> var \<Rightarrow> int \<times> var" where
  "request_coeff P x = (case x of (n, d, s) \<Rightarrow> (if P ! n ! d ! s then 1 else 0, (n, d, s)))"

text \<open>
  The assignment that deals the slots of the week out in turn: slot \<open>s\<close> of day \<open>d\<close> is
  the slot number \<open>d * num_shifts + s\<close> and goes to the worker of that number modulo
  \<open>num_workers\<close>.
\<close>

definition round_robin :: "int \<Rightarrow> int \<Rightarrow> var \<Rightarrow> int" where
  "round_robin N S x = (case x of (n, d, s) \<Rightarrow> if (d * nat S + s) mod nat N = n then 1 else 0)"

text \<open>The request matrix in which no box is ticked, as line 28 builds it.\<close>

definition no_requests :: "int \<Rightarrow> int \<Rightarrow> bool list list list" where
  "no_requests N S = replicate (nat N) (replicate 7 (replicate (nat S) False))"

text \<open>
  Ticking one box (line 39 of \<open>main\<close>), the assignment of a roster as values 0 and 1, and
  a response that reports the round-robin assignment as optimal with a given objective.
\<close>

definition add_request :: "bool list list list \<Rightarrow> nat \<Rightarrow> nat \<Rightarrow> nat \<Rightarrow> bool list list list" where
  "add_request P n d s = P[n := (P ! n)[d := (P ! n ! d)[s := True]]]"

definition indicator :: "(var \<Rightarrow> bool) \<Rightarrow> var \<Rightarrow> int" where
  "indicator a x = (if a x then 1 else 0)"

definition round_robin_response :: "int \<Rightarrow> int \<Rightarrow> int \<Rightarrow> cp_response" where
  "round_robin_response N S obj =
     \<lparr>status = OPTIMAL, solution = round_robin N S, objective_value = obj,
      objective_text = (if obj = 0 then ''-0.0'' else str_int obj @ ''.0''),
      num_conflicts = 0, num_branches = 0, wall_time = ''0.0''\<rparr>"

text \<open>
  Responses and outputs the proofs name: a response of a search that found no assignment,
  a response that reports the round-robin assignment without a proof of optimality, the
  table of an empty \<open>df\<close>, and what the \<open>OPTIMAL\<close> branch returns once every slot has
  its worker.
\<close>

definition failed_response :: "cp_status \<Rightarrow> cp_response" where
  "failed_response st =
     \<lparr>status = st, solution = (\<lambda>x. 0), objective_value = 0, objective_text = ''0.0'',
      num_conflicts = 0, num_branches = 0, wall_time = ''0.0''\<rparr>"

definition feasible_response :: "int \<Rightarrow> int \<Rightarrow> int \<Rightarrow> cp_response" where
  "feasible_response N S obj = (round_robin_response N S obj)\<lparr>status := FEASIBLE\<rparr>"

definition empty_frame :: data_frame where
  "empty_frame = \<lparr>columns = [''Shift''], rows = []\<rparr>"

definition optimal_output :: "bool list list list \<Rightarrow> int \<Rightarrow> int \<Rightarrow> int \<Rightarrow> cp_response \<Rightarrow> schedule_output" where
  "optimal_output P N S lo r =
     \<lparr>printed =
        ''Solution:''
        # concat (map (day_lines P (solution r) N S) all_days)
        @ [''Number of shift requests met = '' @ objective_text r
           @ '' (out of '' @ str_int (N * lo) @ '')'']
        @ statistics_lines r,
      table =
        \<lparr>columns = ''Shift'' # map day_name all_days,
         rows = map (\<lambda>s. (int s + 1, map (\<lambda>d. map_of (day_dict (solution r) N S d) s) all_days))
                    [0..<nat S]\<rparr>\<rparr>"

text \<open>
  For two workers: the roster that gives the even days to worker 1 and the odd days to
  worker 0, the other way round from the round-robin assignment.
\<close>

definition swapped_roster :: "var \<Rightarrow> int" where
  "swapped_roster x = (case x of (n, d, s) \<Rightarrow> if (d + 1) mod 2 = n then 1 else 0)"

text \<open>Reading a decimal numeral back, to tell the labels of two workers apart.\<close>

definition digits_nat :: "string \<Rightarrow> nat" where
  "digits_nat cs = foldl (\<lambda>acc c. 10 * acc + (of_char c - 48)) 0 cs"

section \<open>The lists of variables\<close>

lemma sum_list_01:
  fixes f :: "'a \<Rightarrow> int"
  assumes "distinct xs" and "\<forall>x\<in>set xs. f x = 0 \<or> f x = 1"
  shows "sum_list (map f xs) = int (card {x \<in> set xs. f x = 1})"
  using assms
proof (induction xs)
  case Nil
  then show ?case by simp
next
  case (Cons x xs)
  have fin: "finite {y \<in> set xs. f y = 1}" by simp
  have nin: "x \<notin> {y \<in> set xs. f y = 1}" using Cons.prems by simp
  show ?case
  proof (cases "f x = 1")
    case True
    then have "{y \<in> set (x # xs). f y = 1} = insert x {y \<in> set xs. f y = 1}" by auto
    then show ?thesis using Cons True fin nin by simp
  next
    case False
    then have "{y \<in> set (x # xs). f y = 1} = {y \<in> set xs. f y = 1}" by auto
    then show ?thesis using Cons False by simp
  qed
qed

lemma distinct_concat_map:
  assumes "distinct xs" and "\<forall>x\<in>set xs. distinct (f x)"
    and "\<forall>x\<in>set xs. \<forall>y\<in>set xs. x \<noteq> y \<longrightarrow> set (f x) \<inter> set (f y) = {}"
  shows "distinct (concat (map f xs))"
  using assms by (induction xs) auto

lemma set_py_range [simp]: "set (py_range k) = {i. i < nat k}"
  by (auto simp: py_range_def)

lemma distinct_py_range [simp]: "distinct (py_range k)"
  by (simp add: py_range_def)

lemma set_all_days [simp]: "set all_days = {d. d < 7}"
  by (auto simp: all_days_def num_days_def)

lemma distinct_all_days [simp]: "distinct all_days"
  by (simp add: all_days_def)

lemma set_worker_vars: "set (worker_vars S n) = {(n', d, s). n' = n \<and> d < 7 \<and> s < nat S}"
  by (auto simp: worker_vars_def)

lemma distinct_worker_vars: "distinct (worker_vars S n)"
  unfolding worker_vars_def
  by (rule distinct_concat_map) (auto simp: distinct_map inj_on_def)

lemma set_shift_vars: "set (shift_vars N S) = {(n, d, s). n < nat N \<and> d < 7 \<and> s < nat S}"
  by (auto simp: shift_vars_def)

lemma shift_vars_concat: "shift_vars N S = concat (map (worker_vars S) (py_range N))"
  by (simp add: shift_vars_def worker_vars_def[abs_def])

lemma distinct_shift_vars: "distinct (shift_vars N S)"
  unfolding shift_vars_concat
  by (rule distinct_concat_map) (auto simp: distinct_worker_vars set_worker_vars)

lemma boolean_onD: "boolean_on xs v \<Longrightarrow> x \<in> set xs \<Longrightarrow> v x = 0 \<or> v x = 1"
  by (auto simp: boolean_on_def list_all_iff)

lemma sum_slot:
  assumes "boolean_on (shift_vars N S) v" and "d < 7" and "s < nat S"
  shows "sum_list (map v (map (\<lambda>n. (n, d, s)) (py_range N))) = int (card (workers_on N (\<lambda>x. v x = 1) d s))"
proof -
  let ?xs = "map (\<lambda>n. (n, d, s)) (py_range N)"
  have d: "distinct ?xs" by (simp add: distinct_map inj_on_def)
  have b: "\<forall>x\<in>set ?xs. v x = 0 \<or> v x = 1"
    using assms by (auto dest!: boolean_onD simp: set_shift_vars)
  have "{x \<in> set ?xs. v x = 1} = (\<lambda>n. (n, d, s)) ` workers_on N (\<lambda>x. v x = 1) d s"
    by (auto simp: workers_on_def)
  moreover have "card ((\<lambda>n. (n, d, s)) ` workers_on N (\<lambda>x. v x = 1) d s) = card (workers_on N (\<lambda>x. v x = 1) d s)"
    by (rule card_image) (simp add: inj_on_def)
  ultimately show ?thesis using sum_list_01 [OF d b] by simp
qed

lemma sum_day:
  assumes "boolean_on (shift_vars N S) v" and "n < nat N" and "d < 7"
  shows "sum_list (map v (map (\<lambda>s. (n, d, s)) (py_range S))) = int (card (shifts_on S (\<lambda>x. v x = 1) n d))"
proof -
  let ?xs = "map (\<lambda>s. (n, d, s)) (py_range S)"
  have d: "distinct ?xs" by (simp add: distinct_map inj_on_def)
  have b: "\<forall>x\<in>set ?xs. v x = 0 \<or> v x = 1"
    using assms by (auto dest!: boolean_onD simp: set_shift_vars)
  have "{x \<in> set ?xs. v x = 1} = (\<lambda>s. (n, d, s)) ` shifts_on S (\<lambda>x. v x = 1) n d"
    by (auto simp: shifts_on_def)
  moreover have "card ((\<lambda>s. (n, d, s)) ` shifts_on S (\<lambda>x. v x = 1) n d) = card (shifts_on S (\<lambda>x. v x = 1) n d)"
    by (rule card_image) (simp add: inj_on_def)
  ultimately show ?thesis using sum_list_01 [OF d b] by simp
qed

lemma sum_week:
  assumes "boolean_on (shift_vars N S) v" and "n < nat N"
  shows "sum_list (map v (worker_vars S n)) = int (card (week_of S (\<lambda>x. v x = 1) n))"
proof -
  let ?xs = "worker_vars S n"
  have b: "\<forall>x\<in>set ?xs. v x = 0 \<or> v x = 1"
    using assms by (auto dest!: boolean_onD simp: set_shift_vars set_worker_vars)
  have "{x \<in> set ?xs. v x = 1} = (\<lambda>(d, s). (n, d, s)) ` week_of S (\<lambda>x. v x = 1) n"
    by (auto simp: week_of_def set_worker_vars)
  moreover have "card ((\<lambda>(d, s). (n, d, s)) ` week_of S (\<lambda>x. v x = 1) n) = card (week_of S (\<lambda>x. v x = 1) n)"
    by (rule card_image) (auto simp: inj_on_def)
  ultimately show ?thesis using sum_list_01 [OF distinct_worker_vars b] by simp
qed

lemma coverage_constraints_iff:
  assumes "boolean_on (shift_vars N S) v"
  shows "list_all (holds v) (coverage_constraints N S) = coverage N S (\<lambda>x. v x = 1)"
  using sum_slot [OF assms]
  by (auto simp: coverage_constraints_def coverage_def list_all_iff)

lemma exclusivity_constraints_iff:
  assumes "boolean_on (shift_vars N S) v"
  shows "list_all (holds v) (exclusivity_constraints N S) = exclusivity N S (\<lambda>x. v x = 1)"
  using sum_day [OF assms]
  by (auto simp: exclusivity_constraints_def exclusivity_def list_all_iff)

lemma fairness_constraints_iff:
  assumes "boolean_on (shift_vars N S) v"
  shows "list_all (holds v) (fairness_constraints N S lo hi) = fairness N S lo hi (\<lambda>x. v x = 1)"
  using sum_week [OF assms]
  by (auto simp: fairness_constraints_def fairness_def list_all_iff)

section \<open>The model built from well-formed input\<close>

lemma first_error_map:
  assumes "\<forall>x\<in>set xs. g x = Inr (h x)"
  shows "first_error (map g xs) = Inr (map h xs)"
  using assms by (induction xs) auto

lemma request_at_ok:
  assumes "shape_ok N S P" and "n < nat N" and "d < 7" and "s < nat S"
  shows "request_at P n d s = Inr (P ! n ! d ! s)"
proof -
  have 1: "n < length P" using assms by (simp add: shape_ok_def)
  then have "P ! n \<in> set P" by (rule nth_mem)
  with assms(1) have w: "length (P ! n) = 7 \<and> (\<forall>c\<in>set (P ! n). length c = nat S)"
    unfolding shape_ok_def by blast
  then have 3: "d < length (P ! n)" using assms(3) by simp
  then have "P ! n ! d \<in> set (P ! n)" by (rule nth_mem)
  with w have 4: "s < length (P ! n ! d)" using assms(4) by simp
  show ?thesis using 1 3 4 by (simp add: request_at_def getitem_def)
qed

lemma objective_terms_ok:
  assumes "shape_ok N S P"
  shows "objective_terms N S P = Inr (map (request_coeff P) (shift_vars N S))"
  unfolding objective_terms_def
  by (rule first_error_map)
     (auto simp: set_shift_vars objective_term_def request_coeff_def request_at_ok [OF assms])

lemma build_model_ok:
  assumes "N \<noteq> 0" and "shape_ok N S P"
  shows "\<exists>m lo. build_model N S P = Inr (m, lo)"
  using assms
  by (simp add: build_model_def shift_bounds_def objective_terms_ok Let_def)

lemma build_model_parts:
  assumes "build_model N S P = Inr (m, lo)"
  shows "\<exists>hi. shift_bounds N S = Inr (lo, hi)
           \<and> variables m = shift_vars N S
           \<and> constraints m = coverage_constraints N S @ exclusivity_constraints N S
                              @ fairness_constraints N S lo hi
           \<and> objective_terms N S P = Inr (objective m)"
  using assms
  by (auto simp: build_model_def split: sum.splits prod.splits)

lemma feasible_iff:
  assumes "build_model N S P = Inr (m, lo0)" and "shift_bounds N S = Inr (lo, hi)"
  shows "feasible m v =
           (boolean_on (shift_vars N S) v \<and> coverage N S (\<lambda>x. v x = 1)
            \<and> exclusivity N S (\<lambda>x. v x = 1) \<and> fairness N S lo hi (\<lambda>x. v x = 1))"
proof (cases "boolean_on (shift_vars N S) v")
  case True
  from build_model_parts [OF assms(1)] assms(2)
  have v: "variables m = shift_vars N S"
    and c: "constraints m = coverage_constraints N S @ exclusivity_constraints N S
                              @ fairness_constraints N S lo hi"
    by auto
  show ?thesis
    using True
    by (simp add: feasible_def v c coverage_constraints_iff exclusivity_constraints_iff
          fairness_constraints_iff)
next
  case False
  from build_model_parts [OF assms(1)] have "variables m = shift_vars N S" by auto
  then show ?thesis using False by (simp add: feasible_def)
qed

lemma objective_at_eq:
  assumes "build_model N S P = Inr (m, lo)" and "shape_ok N S P"
    and "boolean_on (shift_vars N S) v"
  shows "objective_at m v = int (requests_met P N S (\<lambda>x. v x = 1))"
proof -
  from build_model_parts [OF assms(1)] objective_terms_ok [OF assms(2)]
  have o: "objective m = map (request_coeff P) (shift_vars N S)" by auto
  let ?f = "\<lambda>x. (case x of (n, d, s) \<Rightarrow> (if P ! n ! d ! s then 1 else 0) * v (n, d, s))"
  have eq: "objective_at m v = sum_list (map ?f (shift_vars N S))"
    by (simp add: objective_at_def o request_coeff_def comp_def case_prod_unfold)
  have b: "\<forall>x\<in>set (shift_vars N S). ?f x = 0 \<or> ?f x = 1"
    using assms(3) by (auto dest!: boolean_onD)
  have "{x \<in> set (shift_vars N S). ?f x = 1}
          = {(n, d, s). n < nat N \<and> d < 7 \<and> s < nat S \<and> v (n, d, s) = 1 \<and> P ! n ! d ! s}"
    by (auto simp: set_shift_vars split: if_splits)
  then show ?thesis
    using sum_list_01 [OF distinct_shift_vars b] eq by (simp add: requests_met_def)
qed

section \<open>When the model can be satisfied\<close>

lemma slots_le_workers:
  assumes cov: "coverage N S a" and exc: "exclusivity N S a"
  shows "nat S \<le> nat N"
proof -
  define f where "f s = (SOME n. n \<in> workers_on N a 0 s)" for s
  have f: "f s \<in> workers_on N a 0 s" if "s < nat S" for s
  proof -
    from cov that have "card (workers_on N a 0 s) = 1" by (simp add: coverage_def)
    then obtain n where "workers_on N a 0 s = {n}" by (auto simp: card_1_singleton_iff)
    then have "\<exists>n. n \<in> workers_on N a 0 s" by auto
    then show ?thesis unfolding f_def by (rule someI_ex)
  qed
  have inj: "inj_on f {s. s < nat S}"
  proof (rule inj_onI)
    fix s s' assume s: "s \<in> {s. s < nat S}" and s': "s' \<in> {s. s < nat S}" and eq: "f s = f s'"
    from f [of s] s have 1: "f s < nat N" "a (f s, 0, s)" by (auto simp: workers_on_def)
    from f [of s'] s' eq have 2: "a (f s, 0, s')" by (auto simp: workers_on_def)
    have fin: "finite (shifts_on S a (f s) 0)" by (simp add: shifts_on_def)
    from exc 1 have "card (shifts_on S a (f s) 0) \<le> Suc 0" by (simp add: exclusivity_def)
    with fin have "\<forall>x\<in>shifts_on S a (f s) 0. \<forall>y\<in>shifts_on S a (f s) 0. x = y"
      by (simp add: card_le_Suc0_iff_eq)
    moreover have "s \<in> shifts_on S a (f s) 0" "s' \<in> shifts_on S a (f s) 0"
      using s s' 1 2 by (auto simp: shifts_on_def)
    ultimately show "s = s'" by blast
  qed
  have sub: "f ` {s. s < nat S} \<subseteq> {n. n < nat N}"
    using f by (auto simp: workers_on_def)
  have "card {s. s < nat S} \<le> card {n. n < nat N}"
    by (rule card_inj_on_le [OF inj sub]) simp
  then show ?thesis by simp
qed

lemma card_residue:
  assumes "n < N"
  shows "card {k. k < M \<and> k mod N = n} = M div N + (if n < M mod N then 1 else 0)"
proof (induction M)
  case 0
  then show ?case by simp
next
  case (Suc M)
  have fin: "finite {k. k < M \<and> k mod N = n}" by simp
  show ?case
  proof (cases "M mod N = n")
    case True
    then have "{k. k < Suc M \<and> k mod N = n} = insert M {k. k < M \<and> k mod N = n}"
      by (auto simp: less_Suc_eq)
    then have "card {k. k < Suc M \<and> k mod N = n} = Suc (card {k. k < M \<and> k mod N = n})"
      using fin by simp
    then show ?thesis using Suc True assms by (auto simp: div_Suc mod_Suc)
  next
    case False
    then have "{k. k < Suc M \<and> k mod N = n} = {k. k < M \<and> k mod N = n}"
      by (auto simp: less_Suc_eq)
    then show ?thesis using Suc False assms by (auto simp: div_Suc mod_Suc)
  qed
qed

lemma mod_add_cancel_small:
  fixes a s s' N :: nat
  assumes "(a + s) mod N = (a + s') mod N" and "s < N" and "s' < N"
  shows "s = s'"
proof -
  have aux: "x = y" if "x \<le> y" "y < N" "(a + x) mod N = (a + y) mod N" for x y
  proof -
    have "a + x \<le> a + y" using that by simp
    then have "((a + y) mod N = (a + x) mod N) = (N dvd (a + y) - (a + x))"
      by (rule mod_eq_dvd_iff_nat)
    with that have "N dvd y - x" by simp
    moreover have "y - x < N" using that by simp
    ultimately have "y - x = 0" by (meson nat_dvd_not_less neq0_conv)
    with that show ?thesis by simp
  qed
  show ?thesis
  proof (cases "s \<le> s'")
    case True
    with assms aux [of s s'] show ?thesis by simp
  next
    case False
    with assms aux [of s' s] show ?thesis by simp
  qed
qed

lemma round_robin_boolean: "boolean_on xs (round_robin N S)"
  by (auto simp: boolean_on_def list_all_iff round_robin_def)

lemma round_robin_1: "(round_robin N S (n, d, s) = 1) = ((d * nat S + s) mod nat N = n)"
  by (simp add: round_robin_def)

lemma round_robin_coverage:
  assumes "1 \<le> N"
  shows "coverage N S (\<lambda>x. round_robin N S x = 1)"
proof -
  have "workers_on N (\<lambda>x. round_robin N S x = 1) d s = {(d * nat S + s) mod nat N}" for d s
    using assms by (auto simp: workers_on_def round_robin_1)
  then show ?thesis by (simp add: coverage_def)
qed

lemma round_robin_exclusivity:
  assumes "1 \<le> N" and "S \<le> N"
  shows "exclusivity N S (\<lambda>x. round_robin N S x = 1)"
proof -
  have "card (shifts_on S (\<lambda>x. round_robin N S x = 1) n d) \<le> Suc 0" for n d
  proof -
    have fin: "finite (shifts_on S (\<lambda>x. round_robin N S x = 1) n d)"
      by (simp add: shifts_on_def)
    have "s = s'" if "s < nat S" "s' < nat S"
      "(d * nat S + s) mod nat N = (d * nat S + s') mod nat N" for s s'
    proof -
      have lt: "s < nat N" "s' < nat N" using that assms by auto
      from that(3) lt show ?thesis by (rule mod_add_cancel_small)
    qed
    then have "\<forall>x\<in>shifts_on S (\<lambda>x. round_robin N S x = 1) n d.
               \<forall>y\<in>shifts_on S (\<lambda>x. round_robin N S x = 1) n d. x = y"
      by (auto simp: shifts_on_def round_robin_1)
    with fin show ?thesis by (simp add: card_le_Suc0_iff_eq)
  qed
  then show ?thesis by (simp add: exclusivity_def)
qed

lemma round_robin_week:
  assumes "n < nat N" and "1 \<le> S"
  shows "card (week_of S (\<lambda>x. round_robin N S x = 1) n)
           = card {k. k < 7 * nat S \<and> k mod nat N = n}"
proof -
  let ?W = "week_of S (\<lambda>x. round_robin N S x = 1) n"
  let ?g = "\<lambda>(d, s). d * nat S + s"
  have inj: "inj_on ?g ?W"
  proof (rule inj_onI)
    fix p q assume p: "p \<in> ?W" and q: "q \<in> ?W" and eq: "?g p = ?g q"
    obtain d s where [simp]: "p = (d, s)" by (cases p)
    obtain d' s' where [simp]: "q = (d', s')" by (cases q)
    from p q have lt: "s < nat S" "s' < nat S" by (auto simp: week_of_def)
    from eq have e: "d * nat S + s = d' * nat S + s'" by simp
    then have "(d * nat S + s) div nat S = (d' * nat S + s') div nat S" by simp
    with lt have "d = d'" by simp
    with e show "p = q" by simp
  qed
  have img: "?g ` ?W = {k. k < 7 * nat S \<and> k mod nat N = n}"
  proof (rule set_eqI, rule iffI)
    fix k assume "k \<in> ?g ` ?W"
    then obtain d s where k: "k = d * nat S + s" and d: "d < 7" and s: "s < nat S"
      and r: "(d * nat S + s) mod nat N = n"
      by (auto simp: week_of_def round_robin_1)
    have "d * nat S + s < Suc d * nat S" using s by simp
    also have "\<dots> \<le> 7 * nat S" by (rule mult_le_mono1) (use d in simp)
    finally have "d * nat S + s < 7 * nat S" .
    with k r show "k \<in> {k. k < 7 * nat S \<and> k mod nat N = n}" by simp
  next
    fix k assume "k \<in> {k. k < 7 * nat S \<and> k mod nat N = n}"
    then have k: "k < 7 * nat S" and r: "k mod nat N = n" by auto
    have pos: "0 < nat S" using assms by simp
    have "k div nat S < 7" using k pos by (simp add: div_less_iff_less_mult mult.commute)
    moreover have "k mod nat S < nat S" using pos by simp
    moreover have "k div nat S * nat S + k mod nat S = k" by simp
    ultimately have "(k div nat S, k mod nat S) \<in> ?W"
      using r by (simp add: week_of_def round_robin_1)
    moreover have "?g (k div nat S, k mod nat S) = k" by simp
    ultimately show "k \<in> ?g ` ?W" by (metis (no_types, lifting) image_eqI)
  qed
  from card_image [OF inj] img show ?thesis by simp
qed

lemma shift_bounds_nat:
  assumes "1 \<le> N" and "1 \<le> S"
  shows "shift_bounds N S =
           Inr (int ((7 * nat S) div nat N),
                int ((7 * nat S) div nat N) + (if (7 * nat S) mod nat N = 0 then 0 else 1))"
proof -
  have S: "S * 7 = int (7 * nat S)" and N: "N = int (nat N)" using assms by simp_all
  have d: "(S * 7) div N = int ((7 * nat S) div nat N)"
    by (subst S, subst N) (simp only: zdiv_int)
  have m: "(S * 7) mod N = int ((7 * nat S) mod nat N)"
    by (subst S, subst N) (simp only: zmod_int)
  show ?thesis
    using assms by (simp add: shift_bounds_def num_days_def Let_def d m)
qed

lemma round_robin_fairness:
  assumes "1 \<le> N" and "1 \<le> S" and "shift_bounds N S = Inr (lo, hi)"
  shows "fairness N S lo hi (\<lambda>x. round_robin N S x = 1)"
proof -
  from shift_bounds_nat [OF assms(1,2)] assms(3)
  have lo: "lo = int ((7 * nat S) div nat N)"
    and hi: "hi = lo + (if (7 * nat S) mod nat N = 0 then 0 else 1)"
    by simp_all
  have "lo \<le> int (card (week_of S (\<lambda>x. round_robin N S x = 1) n))
        \<and> int (card (week_of S (\<lambda>x. round_robin N S x = 1) n)) \<le> hi" if "n < nat N" for n
    using round_robin_week [OF that assms(2)] card_residue [OF that, of "7 * nat S"]
    by (simp add: lo hi)
  then show ?thesis by (simp add: fairness_def)
qed

lemma round_robin_feasible:
  assumes "1 \<le> N" and "1 \<le> S" and "S \<le> N" and "build_model N S P = Inr (m, lo)"
  shows "feasible m (round_robin N S)"
proof -
  from build_model_parts [OF assms(4)] obtain hi where b: "shift_bounds N S = Inr (lo, hi)"
    by auto
  show ?thesis
    using round_robin_boolean round_robin_coverage [OF assms(1)]
      round_robin_exclusivity [OF assms(1,3)] round_robin_fairness [OF assms(1,2) b]
    by (simp add: feasible_iff [OF assms(4) b])
qed

lemma feasible_imp_le:
  assumes "build_model N S P = Inr (m, lo)" and "feasible m v"
  shows "nat S \<le> nat N"
proof -
  from build_model_parts [OF assms(1)] obtain hi where b: "shift_bounds N S = Inr (lo, hi)"
    by auto
  from assms(2) have "coverage N S (\<lambda>x. v x = 1)" "exclusivity N S (\<lambda>x. v x = 1)"
    by (simp_all add: feasible_iff [OF assms(1) b])
  then show ?thesis by (rule slots_le_workers)
qed

lemma shape_ok_no_requests: "shape_ok N S (no_requests N S)"
  by (auto simp: shape_ok_def no_requests_def)

section \<open>What a sound response gives\<close>

lemma shift_bounds_spec:
  assumes "N \<noteq> 0"
  shows "shift_bounds N S = Inr (min_shifts N S, max_shifts N S)"
  using assms by (simp add: shift_bounds_def min_shifts_def max_shifts_def num_days_def Let_def)

lemma indicator_boolean: "boolean_on xs (indicator a)"
  by (simp add: boolean_on_def list_all_iff indicator_def)

lemma indicator_1: "(\<lambda>x. indicator a x = 1) = a"
  by (auto simp: indicator_def)

lemma feasible_valid_roster:
  assumes "build_model N S P = Inr (m, lo)"
  shows "feasible m v = (boolean_on (shift_vars N S) v \<and> valid_roster N S (\<lambda>x. v x = 1))"
proof -
  from build_model_parts [OF assms] obtain hi where b: "shift_bounds N S = Inr (lo, hi)"
    by auto
  then have "N \<noteq> 0" by (auto simp: shift_bounds_def split: if_splits)
  from shift_bounds_spec [OF this] b have "lo = min_shifts N S" "hi = max_shifts N S"
    by simp_all
  with feasible_iff [OF assms b] show ?thesis by (simp add: valid_roster_def)
qed

lemma sound_feasible:
  assumes "cp_sat_sound m r" and "status r = OPTIMAL \<or> status r = FEASIBLE"
  shows "feasible m (solution r)" and "objective_value r = objective_at m (solution r)"
  using assms by (auto simp: cp_sat_sound_def)

lemma sound_optimal:
  assumes "cp_sat_sound m r" and "status r = OPTIMAL" and "feasible m v"
  shows "objective_at m v \<le> objective_value r"
  using assms by (auto simp: cp_sat_sound_def)

lemma sound_valid_roster:
  assumes "build_model N S P = Inr (m, lo)" and "cp_sat_sound m r"
    and "status r = OPTIMAL \<or> status r = FEASIBLE"
  shows "valid_roster N S (assigned r)" and "boolean_on (shift_vars N S) (solution r)"
proof -
  from sound_feasible(1) [OF assms(2,3)] have "feasible m (solution r)" .
  then show "valid_roster N S (assigned r)" and "boolean_on (shift_vars N S) (solution r)"
    by (simp_all add: feasible_valid_roster [OF assms(1)] assigned_def [abs_def])
qed

lemma card_le_1_unique:
  assumes "card A \<le> 1" and "finite A" and "x \<in> A" and "y \<in> A"
  shows "x = y"
  using assms by (auto simp: card_le_Suc0_iff_eq)

lemma finite_triples: "finite {(n, d, s). n < nat N \<and> d < (7::nat) \<and> s < nat S \<and> Q n d s}"
  by (rule finite_subset [of _ "{..<nat N} \<times> {..<7::nat} \<times> {..<nat S}"]) auto

lemma requests_met_none:
  assumes "\<forall>n<nat N. \<forall>d<7. \<forall>s<nat S. \<not> P ! n ! d ! s"
  shows "requests_met P N S a = 0"
proof -
  have e: "{(n, d, s). n < nat N \<and> d < 7 \<and> s < nat S \<and> a (n, d, s) \<and> P ! n ! d ! s} = {}"
    using assms by auto
  show ?thesis unfolding requests_met_def e by simp
qed

lemma no_requests_nth:
  assumes "n < nat N" and "d < 7" and "s < nat S"
  shows "\<not> no_requests N S ! n ! d ! s"
  using assms by (simp add: no_requests_def)

lemma shape_ok_nth:
  assumes "shape_ok N S P" and "n < nat N" and "d < 7"
  shows "n < length P" and "d < length (P ! n)" and "length (P ! n ! d) = nat S"
proof -
  show 1: "n < length P" using assms by (simp add: shape_ok_def)
  then have "P ! n \<in> set P" by (rule nth_mem)
  with assms(1) have w: "length (P ! n) = 7 \<and> (\<forall>c\<in>set (P ! n). length c = nat S)"
    unfolding shape_ok_def by blast
  then show 3: "d < length (P ! n)" using assms(3) by simp
  then have "P ! n ! d \<in> set (P ! n)" by (rule nth_mem)
  with w show "length (P ! n ! d) = nat S" by simp
qed

lemma add_request_nth:
  assumes "shape_ok N S P" and "n < nat N" and "d < 7" and "s < nat S"
    and "n' < nat N" and "d' < 7" and "s' < nat S"
  shows "add_request P n d s ! n' ! d' ! s' = (P ! n' ! d' ! s' \<or> (n', d', s') = (n, d, s))"
  using shape_ok_nth [OF assms(1,2,3)] shape_ok_nth [OF assms(1,5,6)] assms
  by (auto simp: add_request_def nth_list_update split: if_splits)

lemma shape_ok_add_request:
  assumes "shape_ok N S P" and "n < nat N" and "d < 7" and "s < nat S"
  shows "shape_ok N S (add_request P n d s)"
proof -
  note nth = shape_ok_nth [OF assms(1,2,3)]
  have len: "length (add_request P n d s) = nat N"
    using assms(1) by (simp add: add_request_def shape_ok_def)
  have "length w = 7 \<and> (\<forall>c\<in>set w. length c = nat S)" if "w \<in> set (add_request P n d s)" for w
  proof -
    from that have "w = (P ! n)[d := (P ! n ! d)[s := True]] \<or> w \<in> set P"
      using set_update_subset_insert [of P n] by (auto simp: add_request_def)
    then show ?thesis
    proof
      assume w: "w = (P ! n)[d := (P ! n ! d)[s := True]]"
      have "P ! n \<in> set P" using nth(1) by (rule nth_mem)
      with assms(1) have old: "length (P ! n) = 7 \<and> (\<forall>c\<in>set (P ! n). length c = nat S)"
        unfolding shape_ok_def by blast
      have "length c = nat S" if "c \<in> set w" for c
      proof -
        from that w have "c = (P ! n ! d)[s := True] \<or> c \<in> set (P ! n)"
          using set_update_subset_insert [of "P ! n" d] by auto
        then show ?thesis using old nth(3) by auto
      qed
      then show ?thesis using w old by simp
    next
      assume "w \<in> set P"
      with assms(1) show ?thesis unfolding shape_ok_def by blast
    qed
  qed
  with len show ?thesis unfolding shape_ok_def by blast
qed

lemma requests_met_add_request:
  assumes "shape_ok N S P" and "n < nat N" and "d < 7" and "s < nat S"
  shows "requests_met (add_request P n d s) N S a =
           (if a (n, d, s) \<and> \<not> P ! n ! d ! s then requests_met P N S a + 1
            else requests_met P N S a)"
proof -
  let ?A = "{(n', d', s'). n' < nat N \<and> d' < 7 \<and> s' < nat S \<and> a (n', d', s') \<and> P ! n' ! d' ! s'}"
  let ?B = "{(n', d', s'). n' < nat N \<and> d' < 7 \<and> s' < nat S \<and> a (n', d', s')
              \<and> add_request P n d s ! n' ! d' ! s'}"
  have fin: "finite ?A" by (rule finite_triples)
  show ?thesis
  proof (cases "a (n, d, s) \<and> \<not> P ! n ! d ! s")
    case True
    have e: "?B = insert (n, d, s) ?A"
      using True assms by (auto simp: add_request_nth [OF assms])
    have "(n, d, s) \<notin> ?A" using True by simp
    with fin have "card (insert (n, d, s) ?A) = Suc (card ?A)" by (rule card_insert_disjoint)
    then show ?thesis unfolding requests_met_def e using True by simp
  next
    case False
    have e: "?B = ?A"
      using False assms by (auto simp: add_request_nth [OF assms])
    show ?thesis unfolding requests_met_def e using False by simp
  qed
qed

lemma round_robin_response_sound:
  assumes "1 \<le> N" and "1 \<le> S" and "S \<le> N" and "shape_ok N S P"
    and "build_model N S P = Inr (m, lo)"
    and "obj = int (requests_met P N S (\<lambda>x. round_robin N S x = 1))"
    and "\<forall>a. int (requests_met P N S a) \<le> obj"
  shows "cp_sat_sound m (round_robin_response N S obj)"
proof -
  have f: "feasible m (round_robin N S)" using assms(1,2,3,5) by (rule round_robin_feasible)
  have o: "objective_at m (round_robin N S) = obj"
    using objective_at_eq [OF assms(5,4) round_robin_boolean] assms(6) by simp
  have "objective_at m v \<le> obj" if "feasible m v" for v
  proof -
    from that have "boolean_on (shift_vars N S) v"
      by (simp add: feasible_valid_roster [OF assms(5)])
    from objective_at_eq [OF assms(5,4) this] assms(7) show ?thesis by simp
  qed
  with f o show ?thesis by (simp add: cp_sat_sound_def round_robin_response_def)
qed

lemma no_requests_response_sound:
  assumes "1 \<le> N" and "1 \<le> S" and "S \<le> N"
    and "build_model N S (no_requests N S) = Inr (m, lo)"
  shows "cp_sat_sound m (round_robin_response N S 0)"
proof (rule round_robin_response_sound [OF assms(1,2,3) shape_ok_no_requests assms(4)])
  have z: "requests_met (no_requests N S) N S a = 0" for a
    by (rule requests_met_none) (simp add: no_requests_nth)
  show "0 = int (requests_met (no_requests N S) N S (\<lambda>x. round_robin N S x = 1))"
    by (simp add: z)
  show "\<forall>a. int (requests_met (no_requests N S) N S a) \<le> 0" by (simp add: z)
qed

lemma one_request_response_sound:
  assumes "1 \<le> N" and "1 \<le> S" and "S \<le> N"
    and "build_model N S (add_request (no_requests N S) 0 0 0) = Inr (m, lo)"
  shows "cp_sat_sound m (round_robin_response N S 1)"
proof -
  have r: "(0::nat) < nat N" "(0::nat) < 7" "(0::nat) < nat S" using assms by simp_all
  have z: "requests_met (no_requests N S) N S a = 0" for a
    by (rule requests_met_none) (simp add: no_requests_nth)
  have m: "requests_met (add_request (no_requests N S) 0 0 0) N S a = (if a (0, 0, 0) then 1 else 0)" for a
    using requests_met_add_request [OF shape_ok_no_requests r, of a] no_requests_nth [OF r]
    by (simp add: z)
  show ?thesis
  proof (rule round_robin_response_sound [OF assms(1,2,3) _ assms(4)])
    show "shape_ok N S (add_request (no_requests N S) 0 0 0)"
      using shape_ok_no_requests r by (rule shape_ok_add_request)
    show "1 = int (requests_met (add_request (no_requests N S) 0 0 0) N S (\<lambda>x. round_robin N S x = 1))"
      by (simp add: m round_robin_1)
    show "\<forall>a. int (requests_met (add_request (no_requests N S) 0 0 0) N S a) \<le> 1"
      by (simp add: m)
  qed
qed

lemma build_no_requests:
  assumes "N \<noteq> 0"
  shows "\<exists>m lo. build_model N S (no_requests N S) = Inr (m, lo)"
  using assms shape_ok_no_requests by (rule build_model_ok)

section \<open>The roster and the printed lines\<close>

lemma set_assigned_on:
  "set (assigned_on v N S d) = {(n, s). n < nat N \<and> s < nat S \<and> v (n, d, s) = 1}"
  by (auto simp: assigned_on_def)

lemma fold_update_lookup:
  assumes "\<forall>n'. (n', s) \<in> set xs \<longrightarrow> n' = n"
  shows "map_of (fold (\<lambda>(n, s) col. AList.update s (f n) col) xs al) s
           = (if (n, s) \<in> set xs then Some (f n) else map_of al s)"
  using assms
proof (induction xs arbitrary: al)
  case Nil
  then show ?case by simp
next
  case (Cons p xs)
  obtain n' s' where p: "p = (n', s')" by (cases p)
  from Cons.prems have u: "\<forall>n'. (n', s) \<in> set xs \<longrightarrow> n' = n" by simp
  show ?case
  proof (cases "s' = s")
    case True
    with Cons.prems p have "n' = n" by simp
    with True p Cons.IH [OF u, of "AList.update s (f n) al"] show ?thesis
      by (simp add: update_conv')
  next
    case False
    with p Cons.IH [OF u, of "AList.update s' (f n') al"] show ?thesis
      by (simp add: update_conv')
  qed
qed

lemma fold_update_keys:
  "fst ` set (fold (\<lambda>(n, s) col. AList.update s (f n) col) xs al) = fst ` set al \<union> snd ` set xs"
proof (induction xs arbitrary: al)
  case Nil
  then show ?case by simp
next
  case (Cons p xs)
  obtain n' s' where p: "p = (n', s')" by (cases p)
  show ?case using Cons.IH [of "AList.update s' (f n') al"] p
    by (auto simp: dom_update)
qed

lemma coverage_worker:
  assumes "coverage N S a" and "d < 7" and "s < nat S"
  shows "\<exists>n. n < nat N \<and> a (n, d, s) \<and> (\<forall>n'. n' < nat N \<longrightarrow> a (n', d, s) \<longrightarrow> n' = n)"
proof -
  from assms have "card (workers_on N a d s) = 1" by (simp add: coverage_def)
  then obtain n where w: "workers_on N a d s = {n}" by (auto simp: card_1_singleton_iff)
  then have "n \<in> workers_on N a d s" by simp
  then have 1: "n < nat N" "a (n, d, s)" by (simp_all add: workers_on_def)
  have "n' = n" if "n' < nat N" "a (n', d, s)" for n'
  proof -
    from that have "n' \<in> workers_on N a d s" by (simp add: workers_on_def)
    with w show ?thesis by simp
  qed
  with 1 show ?thesis by blast
qed

lemma day_dict_cell:
  assumes "coverage N S (\<lambda>x. v x = 1)" and "d < 7" and "s < nat S"
    and "n < nat N" and "v (n, d, s) = 1"
  shows "map_of (day_dict v N S d) s = Some (worker_label n)"
proof -
  have u: "\<forall>n'. (n', s) \<in> set (assigned_on v N S d) \<longrightarrow> n' = n"
  proof (intro allI impI)
    fix n' assume "(n', s) \<in> set (assigned_on v N S d)"
    then have n': "n' < nat N" "v (n', d, s) = 1" by (simp_all add: set_assigned_on)
    from coverage_worker [OF assms(1,2,3)]
    obtain k where k: "\<And>j. j < nat N \<Longrightarrow> v (j, d, s) = 1 \<Longrightarrow> j = k"
      by blast
    from k [OF n'] k [OF assms(4,5)] show "n' = n" by simp
  qed
  have "(n, s) \<in> set (assigned_on v N S d)" using assms by (simp add: set_assigned_on)
  with fold_update_lookup [OF u, of worker_label "[]"] show ?thesis
    by (simp add: day_dict_def)
qed

lemma day_dict_keys:
  assumes "coverage N S (\<lambda>x. v x = 1)" and "d < 7"
  shows "fst ` set (day_dict v N S d) = {s. s < nat S}"
proof -
  have "snd ` set (assigned_on v N S d) = {s. s < nat S}"
  proof (rule set_eqI, rule iffI)
    fix s assume "s \<in> snd ` set (assigned_on v N S d)"
    then show "s \<in> {s. s < nat S}" by (auto simp: set_assigned_on)
  next
    fix s assume "s \<in> {s. s < nat S}"
    then have s: "s < nat S" by simp
    from coverage_worker [OF assms(1,2) s]
    obtain n where "n < nat N" and "v (n, d, s) = 1" by blast
    then have "(n, s) \<in> set (assigned_on v N S d)" using s by (simp add: set_assigned_on)
    then show "s \<in> snd ` set (assigned_on v N S d)" by force
  qed
  then show ?thesis by (simp add: day_dict_def fold_update_keys)
qed

lemma sorted_distinct_upt:
  assumes "set xs = {i. i < k}"
  shows "sort (remdups xs) = [0..<k]"
proof (rule sorted_distinct_set_unique)
  show "sorted (sort (remdups xs))" by simp
  show "distinct (sort (remdups xs))" by simp
  show "sorted [0..<k]" by simp
  show "distinct [0..<k]" by simp
  have "set [0..<k] = {i. i < k}" by auto
  then show "set (sort (remdups xs)) = set [0..<k]" by (simp only: set_sort set_remdups assms)
qed

lemma roster_frame:
  assumes "coverage N S (\<lambda>x. v x = 1)"
  shows "to_frame (map (\<lambda>d. (d, day_dict v N S d)) all_days) =
           \<lparr>columns = ''Shift'' # map day_name all_days,
            rows = map (\<lambda>s. (int s + 1, map (\<lambda>d. map_of (day_dict v N S d) s) all_days))
                       [0..<nat S]\<rparr>"
proof -
  let ?df = "map (\<lambda>d. (d, day_dict v N S d)) all_days"
  have "set (concat (map (\<lambda>(d, col). map fst col) ?df)) = (\<Union>d\<in>{d. d < 7}. fst ` set (day_dict v N S d))"
    by (auto simp: comp_def)
  also have "\<dots> = (\<Union>d\<in>{d. d < (7::nat)}. {s. s < nat S})"
    using day_dict_keys [OF assms] by simp
  also have "\<dots> = {s. s < nat S}"
  proof -
    have "(0::nat) \<in> {d. d < 7}" by simp
    then show ?thesis by blast
  qed
  finally have "sort (remdups (concat (map (\<lambda>(d, col). map fst col) ?df))) = [0..<nat S]"
    by (rule sorted_distinct_upt)
  then show ?thesis by (simp add: to_frame_def comp_def)
qed

lemma upt7: "[0..<7] = [0, 1, 2, 3, 4, 5, 6::nat]"
  by (simp add: upt_conv_Cons)

lemma day_names: "map day_name all_days = [''Mon'', ''Tue'', ''Wed'', ''Thu'', ''Fri'', ''Sat'', ''Sun'']"
  by (simp add: all_days_def num_days_def py_range_def day_name_def upt7)

lemma digits_nat_snoc: "digits_nat (cs @ [c]) = 10 * digits_nat cs + (of_char c - 48)"
  by (simp add: digits_nat_def)

lemma digits_nat_single: "k < 10 \<Longrightarrow> digits_nat [char_of (48 + k)] = k"
  by (simp add: digits_nat_def)

lemma digits_nat_str_nat: "digits_nat (str_nat n) = n"
proof (induction n rule: str_nat.induct)
  case (1 n)
  show ?case
  proof (cases "n < 10")
    case True
    then show ?thesis by (subst str_nat.simps) (simp add: digits_nat_single)
  next
    case False
    have m: "n mod 10 < 10" by simp
    have "digits_nat (str_nat n) = 10 * digits_nat (str_nat (n div 10)) + (of_char (char_of (48 + n mod 10) :: char) - 48)"
      using False by (subst str_nat.simps) (simp add: digits_nat_snoc)
    also have "(of_char (char_of (48 + n mod 10) :: char) :: nat) - 48 = n mod 10"
      using m by simp
    finally show ?thesis using 1 [OF False] by simp
  qed
qed

lemma str_nat_inj: "str_nat a = str_nat b \<Longrightarrow> a = b"
  by (metis digits_nat_str_nat)

lemma worker_label_inj: "worker_label a = worker_label b \<Longrightarrow> a = b"
  by (auto simp: worker_label_def dest: str_nat_inj)

lemma run_schedule_not_optimal:
  assumes "build_model N S P = Inr (m, lo)" and "status (solve m) \<noteq> OPTIMAL"
  shows "run_schedule solve N S P =
           Inr \<lparr>printed = ''No optimal solution found !'' # statistics_lines (solve m),
                table = empty_frame\<rparr>"
  using assms by (simp add: run_schedule_def Let_def to_frame_def empty_frame_def)

lemma run_schedule_optimal:
  assumes "build_model N S P = Inr (m, lo)" and "status (solve m) = OPTIMAL"
    and "coverage N S (assigned (solve m))"
  shows "run_schedule solve N S P = Inr (optimal_output P N S lo (solve m))"
proof -
  from assms(3) have "coverage N S (\<lambda>x. solution (solve m) x = 1)"
    by (simp add: assigned_def [abs_def])
  from roster_frame [OF this] assms(1,2) show ?thesis
    by (simp add: run_schedule_def Let_def optimal_output_def)
qed

lemma work_line_printed:
  assumes "d < 7" and "n < nat N" and "s < nat S" and "v (n, d, s) = 1"
  shows "work_line P d (n, s) \<in> set (concat (map (day_lines P v N S) all_days))"
proof -
  have "(n, s) \<in> set (assigned_on v N S d)" using assms by (simp add: set_assigned_on)
  then have "work_line P d (n, s) \<in> set (day_lines P v N S d)" by (simp add: day_lines_def)
  moreover have "d \<in> set all_days" using assms(1) by simp
  ultimately show ?thesis by auto
qed

lemma work_line_ok:
  assumes "shape_ok N S P" and "n < nat N" and "d < 7" and "s < nat S"
  shows "work_line P d (n, s) =
           ''worker '' @ str_nat n @ '' works shift '' @ str_nat s @
           (if P ! n ! d ! s then '' (requested).'' else '' (not requested).'')"
  using request_at_ok [OF assms] by (simp add: work_line_def)

lemma all_days_nth: "d < 7 \<Longrightarrow> all_days ! d = d"
  by (simp add: all_days_def py_range_def num_days_def)

lemma length_all_days: "length all_days = 7"
  by (simp add: all_days_def py_range_def num_days_def)

lemma optimal_cells:
  assumes "build_model N S P = Inr (m, lo)" and "cp_sat_sound m (solve m)"
    and "status (solve m) = OPTIMAL"
  shows "\<exists>out. run_schedule solve N S P = Inr out
           \<and> columns (table out) = ''Shift'' # map day_name all_days
           \<and> map fst (rows (table out)) = map (\<lambda>s. int s + 1) [0..<nat S]
           \<and> (\<forall>d<7. \<forall>s<nat S. \<exists>n<nat N.
                 (\<forall>n'<nat N. assigned (solve m) (n', d, s) = (n' = n))
                 \<and> snd (rows (table out) ! s) ! d = Some (worker_label n)
                 \<and> work_line P d (n, s) \<in> set (printed out))"
proof -
  let ?r = "solve m"
  have st: "status ?r = OPTIMAL \<or> status ?r = FEASIBLE" using assms(3) by simp
  from sound_valid_roster(1) [OF assms(1,2) st]
  have cov: "coverage N S (assigned ?r)" by (simp add: valid_roster_def)
  then have cov': "coverage N S (\<lambda>x. solution ?r x = 1)" by (simp add: assigned_def [abs_def])
  note out = run_schedule_optimal [where solve = solve and m = m, OF assms(1,3) cov]
  have cell: "\<exists>n<nat N.
                 (\<forall>n'<nat N. assigned ?r (n', d, s) = (n' = n))
                 \<and> map_of (day_dict (solution ?r) N S d) s = Some (worker_label n)
                 \<and> work_line P d (n, s) \<in> set (concat (map (day_lines P (solution ?r) N S) all_days))"
    if "d < 7" "s < nat S" for d s
  proof -
    from coverage_worker [OF cov that]
    obtain n where n: "n < nat N" "assigned ?r (n, d, s)"
      and u: "\<And>n'. n' < nat N \<Longrightarrow> assigned ?r (n', d, s) \<Longrightarrow> n' = n"
      by blast
    from n have v: "solution ?r (n, d, s) = 1" by (simp add: assigned_def)
    have "\<forall>n'<nat N. assigned ?r (n', d, s) = (n' = n)" using n u by blast
    moreover have "map_of (day_dict (solution ?r) N S d) s = Some (worker_label n)"
      using cov' that n(1) v by (rule day_dict_cell)
    moreover have "work_line P d (n, s) \<in> set (concat (map (day_lines P (solution ?r) N S) all_days))"
      using that(1) n(1) that(2) v by (rule work_line_printed)
    ultimately show ?thesis using n(1) by blast
  qed
  let ?out = "optimal_output P N S lo ?r"
  have c1: "columns (table ?out) = ''Shift'' # map day_name all_days"
    by (simp add: optimal_output_def)
  have c2: "map fst (rows (table ?out)) = map (\<lambda>s. int s + 1) [0..<nat S]"
    by (simp add: optimal_output_def comp_def)
  have c3: "\<exists>n<nat N.
              (\<forall>n'<nat N. assigned ?r (n', d, s) = (n' = n))
              \<and> snd (rows (table ?out) ! s) ! d = Some (worker_label n)
              \<and> work_line P d (n, s) \<in> set (printed ?out)"
    if "d < 7" "s < nat S" for d s
  proof -
    have "snd (rows (table ?out) ! s) ! d = map_of (day_dict (solution ?r) N S d) s"
      using that by (simp add: optimal_output_def all_days_nth length_all_days)
    moreover have "set (concat (map (day_lines P (solution ?r) N S) all_days)) \<subseteq> set (printed ?out)"
      by (simp add: optimal_output_def) blast
    ultimately show ?thesis using cell [OF that] by (metis subsetD)
  qed
  from out c1 c2 c3 show ?thesis by blast
qed

lemma sound_feasible_response:
  assumes "cp_sat_sound m (round_robin_response N S obj)"
  shows "cp_sat_sound m (feasible_response N S obj)"
  using assms by (simp add: cp_sat_sound_def feasible_response_def round_robin_response_def)

lemma sound_unknown: "cp_sat_sound m (failed_response UNKNOWN)"
  by (simp add: cp_sat_sound_def failed_response_def)

lemma sound_infeasible:
  assumes "build_model N S P = Inr (m, lo)" and "nat N < nat S"
  shows "cp_sat_sound m (failed_response INFEASIBLE)"
proof -
  have "\<not> feasible m v" for v
    using feasible_imp_le [OF assms(1), of v] assms(2) by auto
  then show ?thesis by (simp add: cp_sat_sound_def failed_response_def)
qed

lemma sound_not_infeasible:
  assumes "cp_sat_sound m r" and "feasible m v"
  shows "status r \<noteq> INFEASIBLE"
  using assms by (auto simp: cp_sat_sound_def)

lemma statistics_failed:
  "statistics_lines (failed_response st) =
     ['''', ''Statistics'', ''  - conflicts: 0'', ''  - branches : 0'', ''  - wall time: 0.0s'']"
  by code_simp

lemma coverage_constraint_mem:
  assumes "build_model N S P = Inr (m, lo)" and "d < 7" and "s < nat S"
  shows "ExactlyOne (map (\<lambda>n. (n, d, s)) (py_range N)) \<in> set (constraints m)"
proof -
  from build_model_parts [OF assms(1)] obtain hi where
    "constraints m = coverage_constraints N S @ exclusivity_constraints N S
                       @ fairness_constraints N S lo hi"
    by blast
  moreover have "ExactlyOne (map (\<lambda>n. (n, d, s)) (py_range N)) \<in> set (coverage_constraints N S)"
    using assms(2,3) by (auto simp: coverage_constraints_def)
  ultimately show ?thesis by simp
qed

section \<open>The printed lines in full\<close>

lemma feasible_response_sound:
  assumes "feasible m (round_robin N S)" and "objective_at m (round_robin N S) = obj"
  shows "cp_sat_sound m (feasible_response N S obj)"
  using assms by (simp add: cp_sat_sound_def feasible_response_def round_robin_response_def)

lemma lower_bound_is_floor:
  assumes "build_model N S P = Inr (m, lo)"
  shows "lo = (S * 7) div N"
proof -
  from build_model_parts [OF assms] obtain hi where b: "shift_bounds N S = Inr (lo, hi)"
    by auto
  then have "N \<noteq> 0" by (auto simp: shift_bounds_def split: if_splits)
  from shift_bounds_spec [OF this] b show ?thesis by (simp add: min_shifts_def)
qed

lemma swapped_roster_feasible:
  "(case build_model 2 1 (add_request (no_requests 2 1) 1 0 0) of
      Inr (m, lo) \<Rightarrow> feasible m swapped_roster
    | Inl e \<Rightarrow> False)"
  by code_simp

lemma concat_if_filter:
  "concat (map (\<lambda>y. if Q y then [f y] else []) ys) = map f (filter Q ys)"
  by (induction ys) simp_all

lemma assigned_on_filter:
  "assigned_on v N S d =
     filter (\<lambda>(n, s). v (n, d, s) = 1) (List.product [0..<nat N] [0..<nat S])"
proof -
  have "concat (map (\<lambda>n. concat (map (\<lambda>s. if v (n, d, s) = 1 then [(n, s)] else []) ys)) xs)
          = filter (\<lambda>(n, s). v (n, d, s) = 1) (List.product xs ys)" for xs ys :: "nat list"
    by (induction xs) (simp_all add: concat_if_filter filter_map comp_def)
  then show ?thesis by (simp add: assigned_on_def py_range_def)
qed

lemma day_lines_explicit:
  assumes "shape_ok N S P" and "d < 7"
  shows "day_lines P v N S d =
           (''Day '' @ str_nat d)
           # map (\<lambda>(n, s). ''worker '' @ str_nat n @ '' works shift '' @ str_nat s @
                            (if P ! n ! d ! s then '' (requested).'' else '' (not requested).''))
                 (filter (\<lambda>(n, s). v (n, d, s) = 1) (List.product [0..<nat N] [0..<nat S]))
           @ ['''']"
proof -
  have "map (work_line P d) (assigned_on v N S d)
          = map (\<lambda>(n, s). ''worker '' @ str_nat n @ '' works shift '' @ str_nat s @
                            (if P ! n ! d ! s then '' (requested).'' else '' (not requested).''))
                (assigned_on v N S d)"
  proof (rule map_cong [OF refl])
    fix p assume p: "p \<in> set (assigned_on v N S d)"
    obtain n s where [simp]: "p = (n, s)" by (cases p)
    from p have "n < nat N" "s < nat S" by (simp_all add: set_assigned_on)
    with work_line_ok [OF assms(1) _ assms(2), of n s]
    show "work_line P d p =
            (case p of (n, s) \<Rightarrow> ''worker '' @ str_nat n @ '' works shift '' @ str_nat s @
                            (if P ! n ! d ! s then '' (requested).'' else '' (not requested).''))"
      by simp
  qed
  then show ?thesis by (simp add: day_lines_def assigned_on_filter)
qed

lemma optimal_printed:
  assumes "shape_ok N S P"
  shows "printed (optimal_output P N S lo r) =
           ''Solution:''
           # concat (map (\<lambda>d. (''Day '' @ str_nat d)
                               # map (\<lambda>(n, s). ''worker '' @ str_nat n @ '' works shift '' @ str_nat s @
                                        (if P ! n ! d ! s then '' (requested).'' else '' (not requested).''))
                                     (filter (\<lambda>(n, s). assigned r (n, d, s))
                                             (List.product [0..<nat N] [0..<nat S]))
                               @ [''''])
                         [0..<7])
           @ [''Number of shift requests met = '' @ objective_text r
                @ '' (out of '' @ str_int (N * lo) @ '')'',
              '''', ''Statistics'',
              ''  - conflicts: '' @ str_int (num_conflicts r),
              ''  - branches : '' @ str_int (num_branches r),
              ''  - wall time: '' @ wall_time r @ ''s'']"
proof -
  have d: "all_days = [0..<7]" by (simp add: all_days_def py_range_def num_days_def)
  have e: "map (day_lines P (solution r) N S) [0..<7]
          = map (\<lambda>d. (''Day '' @ str_nat d)
                       # map (\<lambda>(n, s). ''worker '' @ str_nat n @ '' works shift '' @ str_nat s @
                                (if P ! n ! d ! s then '' (requested).'' else '' (not requested).''))
                             (filter (\<lambda>(n, s). assigned r (n, d, s))
                                     (List.product [0..<nat N] [0..<nat S]))
                       @ [''''])
                [0..<7]"
    by (rule map_cong [OF refl]) (simp add: day_lines_explicit [OF assms] assigned_def)
  show ?thesis unfolding optimal_output_def statistics_lines_def d e by simp
qed

section \<open>The claims\<close>

text \<open>
  C5. For at least one worker and at least one shift a day, lines 92-96 compute
  \<open>min_shifts_per_worker\<close> as the floor of \<open>num_shifts * 7 / num_workers\<close>, and
  \<open>max_shifts_per_worker\<close> as the same number when the division leaves no remainder and
  as one more otherwise. With two workers and one shift a day the bounds are 3 and 4.
\<close>

theorem shift_bounds_floor_ceiling:
  assumes "1 \<le> N" and "1 \<le> S"
  shows "shift_bounds N S =
           Inr ((S * 7) div N,
                if (S * 7) mod N = 0 then (S * 7) div N else (S * 7) div N + 1)
         \<and> shift_bounds 2 1 = Inr (3, 4)"
  using assms by (simp add: shift_bounds_def num_days_def Let_def)

theorem shift_bounds_floor_ceiling_witness:
  "(1::int) \<le> 2 \<and> (1::int) \<le> 10 \<and> shift_bounds 2 10 = Inr (35, 35)"
proof -
  have N: "(1::int) \<le> 2" and S: "(1::int) \<le> 10" by simp_all
  from shift_bounds_floor_ceiling [OF N S] show ?thesis by simp
qed

text \<open>
  C10. For at least one worker and at least one shift a day, and any request matrix from
  which the model is built, the constraints of the model (exactly one worker per slot, at
  most one shift per worker and day, the weekly band of each worker) have a satisfying
  assignment if and only if there are no more shifts a day than workers.
\<close>

theorem model_satisfiable_iff:
  assumes "1 \<le> N" and "1 \<le> S" and "build_model N S P = Inr (m, lo)"
  shows "(\<exists>v. feasible m v) = (S \<le> N)"
proof
  assume "\<exists>v. feasible m v"
  then obtain v where "feasible m v" ..
  with assms(3) have "nat S \<le> nat N" by (rule feasible_imp_le)
  with assms(1,2) show "S \<le> N" by simp
next
  assume "S \<le> N"
  with assms have "feasible m (round_robin N S)" by (simp add: round_robin_feasible)
  then show "\<exists>v. feasible m v" by blast
qed

theorem model_satisfiable_iff_witness:
  "\<exists>m lo. build_model 2 1 (no_requests 2 1) = Inr (m, lo) \<and> (\<exists>v. feasible m v)"
proof -
  have "shape_ok 2 1 (no_requests 2 1)"
    by (simp add: shape_ok_def no_requests_def)
  then obtain m lo where b: "build_model 2 1 (no_requests 2 1) = Inr (m, lo)"
    using build_model_ok [of 2 1 "no_requests 2 1"] by auto
  have "(\<exists>v. feasible m v) = ((1::int) \<le> 2)"
    by (rule model_satisfiable_iff [OF _ _ b]) simp_all
  with b show ?thesis by simp
qed

text \<open>
  C3. Whenever the engine answers \<open>OPTIMAL\<close> or \<open>FEASIBLE\<close> and keeps its contract, for
  every worker and day at most one of the worker's shift variables of that day is true:
  nobody works two shifts on one day.
\<close>

theorem one_shift_a_day:
  assumes "build_model N S P = Inr (m, lo)" and "cp_sat_sound m r"
    and "status r = OPTIMAL \<or> status r = FEASIBLE"
  shows "exclusivity N S (assigned r)
         \<and> (\<forall>n<nat N. \<forall>d<7. \<forall>s<nat S. \<forall>s'<nat S.
               assigned r (n, d, s) \<and> assigned r (n, d, s') \<longrightarrow> s = s')"
proof -
  from sound_valid_roster(1) [OF assms] have e: "exclusivity N S (assigned r)"
    by (simp add: valid_roster_def)
  have "s = s'" if "n < nat N" "d < 7" "s < nat S" "s' < nat S"
    "assigned r (n, d, s)" "assigned r (n, d, s')" for n d s s'
  proof (rule card_le_1_unique)
    show "card (shifts_on S (assigned r) n d) \<le> 1" using e that by (simp add: exclusivity_def)
    show "finite (shifts_on S (assigned r) n d)" by (simp add: shifts_on_def)
    show "s \<in> shifts_on S (assigned r) n d" using that by (simp add: shifts_on_def)
    show "s' \<in> shifts_on S (assigned r) n d" using that by (simp add: shifts_on_def)
  qed
  with e show ?thesis by blast
qed

theorem one_shift_a_day_two_shifts_witness:
  "\<exists>m lo. build_model 2 2 (no_requests 2 2) = Inr (m, lo)
      \<and> cp_sat_sound m (round_robin_response 2 2 0)
      \<and> status (round_robin_response 2 2 0) = OPTIMAL
      \<and> exclusivity 2 2 (assigned (round_robin_response 2 2 0))
      \<and> assigned (round_robin_response 2 2 0) (0, 0, 0)
      \<and> \<not> assigned (round_robin_response 2 2 0) (0, 0, 1)"
proof -
  let ?r = "round_robin_response 2 2 0"
  obtain m lo where b: "build_model 2 2 (no_requests 2 2) = Inr (m, lo)"
    using build_no_requests [of 2 2] by auto
  have s: "cp_sat_sound m ?r"
    by (rule no_requests_response_sound [OF _ _ _ b]) simp_all
  have o: "status ?r = OPTIMAL" by (simp add: round_robin_response_def)
  then have st: "status ?r = OPTIMAL \<or> status ?r = FEASIBLE" by simp
  have a: "assigned ?r (0, 0, 0)"
    by (simp add: assigned_def round_robin_response_def round_robin_def)
  from one_shift_a_day [OF b s st]
  have e: "exclusivity 2 2 (assigned ?r)"
    and u: "\<forall>n<nat 2. \<forall>d<7. \<forall>s<nat 2. \<forall>s'<nat 2.
               assigned ?r (n, d, s) \<and> assigned ?r (n, d, s') \<longrightarrow> s = s'"
    by blast+
  have "\<not> assigned ?r (0, 0, 1)"
  proof
    assume "assigned ?r (0, 0, 1)"
    moreover have "(0::nat) < nat 2" "(0::nat) < 7" "(1::nat) < nat 2" by simp_all
    ultimately have "(0::nat) = 1" using a u by blast
    then show False by simp
  qed
  with b s o e a show ?thesis by blast
qed

text \<open>
  C4. Whenever the engine answers \<open>OPTIMAL\<close> or \<open>FEASIBLE\<close> and keeps its contract, the
  number of shifts of every worker over the week lies between the floor of
  \<open>num_shifts * 7 / num_workers\<close> and that floor, or one more when the division leaves a
  remainder.
\<close>

theorem weekly_band:
  assumes "1 \<le> N" and "1 \<le> S"
    and "build_model N S P = Inr (m, lo)" and "cp_sat_sound m r"
    and "status r = OPTIMAL \<or> status r = FEASIBLE"
  shows "\<forall>n<nat N.
           (S * 7) div N \<le> int (card (week_of S (assigned r) n))
           \<and> int (card (week_of S (assigned r) n))
               \<le> (if (S * 7) mod N = 0 then (S * 7) div N else (S * 7) div N + 1)"
proof -
  from sound_valid_roster(1) [OF assms(3-5)]
  have "fairness N S (min_shifts N S) (max_shifts N S) (assigned r)"
    by (simp add: valid_roster_def)
  then show ?thesis unfolding fairness_def max_shifts_def min_shifts_def .
qed

theorem weekly_band_witness:
  "\<exists>m lo. build_model 2 1 (no_requests 2 1) = Inr (m, lo)
      \<and> cp_sat_sound m (round_robin_response 2 1 0)
      \<and> status (round_robin_response 2 1 0) = OPTIMAL
      \<and> 3 \<le> int (card (week_of 1 (assigned (round_robin_response 2 1 0)) 0))
      \<and> int (card (week_of 1 (assigned (round_robin_response 2 1 0)) 0)) \<le> 4"
proof -
  obtain m lo where b: "build_model 2 1 (no_requests 2 1) = Inr (m, lo)"
    using build_no_requests [of 2 1] by auto
  have s: "cp_sat_sound m (round_robin_response 2 1 0)"
    by (rule no_requests_response_sound [OF _ _ _ b]) simp_all
  have o: "status (round_robin_response 2 1 0) = OPTIMAL"
    by (simp add: round_robin_response_def)
  have N: "(1::int) \<le> 2" and S: "(1::int) \<le> 1" by simp_all
  have st: "status (round_robin_response 2 1 0) = OPTIMAL
            \<or> status (round_robin_response 2 1 0) = FEASIBLE" using o by simp
  from weekly_band [OF N S b s st]
  have "3 \<le> int (card (week_of 1 (assigned (round_robin_response 2 1 0)) 0))
        \<and> int (card (week_of 1 (assigned (round_robin_response 2 1 0)) 0)) \<le> 4"
    by simp
  then show ?thesis using b s o by auto
qed

text \<open>
  C1, as the code and the engine's contract have it. For well-formed input on which the
  engine answers \<open>OPTIMAL\<close> or \<open>FEASIBLE\<close> and keeps its contract, the objective value it
  reports is the number of assigned triples of worker, day and shift whose request is
  true, and the assignment itself meets coverage, exclusivity and fairness. When the
  answer is \<open>OPTIMAL\<close>, no roster that meets the three constraints fulfils more requests.
\<close>

theorem objective_of_success:
  assumes "1 \<le> N" and "1 \<le> S" and "shape_ok N S P"
    and "build_model N S P = Inr (m, lo)" and "cp_sat_sound m r"
    and "status r = OPTIMAL \<or> status r = FEASIBLE"
  shows "objective_value r = int (requests_met P N S (assigned r))
         \<and> valid_roster N S (assigned r)
         \<and> (status r = OPTIMAL \<longrightarrow>
               (\<forall>a. valid_roster N S a \<longrightarrow> requests_met P N S a \<le> requests_met P N S (assigned r)))"
proof -
  from sound_valid_roster [OF assms(4,5,6)]
  have v: "valid_roster N S (assigned r)" and b: "boolean_on (shift_vars N S) (solution r)" .
  have obj: "objective_value r = int (requests_met P N S (assigned r))"
    using sound_feasible(2) [OF assms(5,6)] objective_at_eq [OF assms(4,3) b]
    by (simp add: assigned_def [abs_def])
  have "requests_met P N S a \<le> requests_met P N S (assigned r)"
    if o: "status r = OPTIMAL" and a: "valid_roster N S a" for a
  proof -
    have "feasible m (indicator a)"
      using a by (simp add: feasible_valid_roster [OF assms(4)] indicator_boolean indicator_1)
    from sound_optimal [OF assms(5) o this]
    have "objective_at m (indicator a) \<le> objective_value r" .
    moreover have "objective_at m (indicator a) = int (requests_met P N S a)"
      using objective_at_eq [OF assms(4,3) indicator_boolean, of a] by (simp add: indicator_1)
    ultimately show ?thesis using obj by simp
  qed
  with obj v show ?thesis by blast
qed

theorem objective_of_success_witness:
  "\<exists>m lo. build_model 2 1 (add_request (no_requests 2 1) 0 0 0) = Inr (m, lo)
      \<and> cp_sat_sound m (round_robin_response 2 1 1)
      \<and> status (round_robin_response 2 1 1) = OPTIMAL
      \<and> valid_roster 2 1 (assigned (round_robin_response 2 1 1))
      \<and> requests_met (add_request (no_requests 2 1) 0 0 0) 2 1 (assigned (round_robin_response 2 1 1)) = 1"
proof -
  let ?P = "add_request (no_requests 2 1) 0 0 0"
  have sh: "shape_ok 2 1 ?P"
    by (rule shape_ok_add_request [OF shape_ok_no_requests]) simp_all
  obtain m lo where b: "build_model 2 1 ?P = Inr (m, lo)"
    using build_model_ok [OF _ sh] by auto
  have s: "cp_sat_sound m (round_robin_response 2 1 1)"
    by (rule one_request_response_sound [OF _ _ _ b]) simp_all
  have o: "status (round_robin_response 2 1 1) = OPTIMAL"
    and v: "objective_value (round_robin_response 2 1 1) = 1"
    by (simp_all add: round_robin_response_def)
  have st: "status (round_robin_response 2 1 1) = OPTIMAL
            \<or> status (round_robin_response 2 1 1) = FEASIBLE" using o by simp
  from objective_of_success [OF _ _ sh b s st] v
  have "requests_met ?P 2 1 (assigned (round_robin_response 2 1 1)) = 1"
    and "valid_roster 2 1 (assigned (round_robin_response 2 1 1))" by simp_all
  with b s o show ?thesis by blast
qed

text \<open>
  C1 as stated fails for a solve that succeeds with \<open>FEASIBLE\<close>: for two workers, one
  shift a day and the single request of worker 1 for Monday, the round-robin assignment
  is a sound \<open>FEASIBLE\<close> answer that fulfils no request, while the roster with the days
  swapped meets all constraints and fulfils one.
\<close>

theorem feasible_not_optimal:
  "\<exists>m lo. build_model 2 1 (add_request (no_requests 2 1) 1 0 0) = Inr (m, lo)
      \<and> cp_sat_sound m (feasible_response 2 1 0)
      \<and> status (feasible_response 2 1 0) = FEASIBLE
      \<and> valid_roster 2 1 (assigned (feasible_response 2 1 0))
      \<and> valid_roster 2 1 (\<lambda>x. swapped_roster x = 1)
      \<and> requests_met (add_request (no_requests 2 1) 1 0 0) 2 1 (assigned (feasible_response 2 1 0)) = 0
      \<and> requests_met (add_request (no_requests 2 1) 1 0 0) 2 1 (\<lambda>x. swapped_roster x = 1) = 1"
proof -
  let ?P = "add_request (no_requests 2 1) 1 0 0"
  have r: "(1::nat) < nat 2" "(0::nat) < 7" "(0::nat) < nat 1" by simp_all
  have sh: "shape_ok 2 1 ?P"
    using shape_ok_no_requests r by (rule shape_ok_add_request)
  obtain m lo where b: "build_model 2 1 ?P = Inr (m, lo)"
    using build_model_ok [OF _ sh] by auto
  have z: "requests_met (no_requests 2 1) 2 1 a = 0" for a
    by (rule requests_met_none) (simp add: no_requests_nth)
  have met: "requests_met ?P 2 1 a = (if a (1, 0, 0) then 1 else 0)" for a
    using requests_met_add_request [OF shape_ok_no_requests r, of a] no_requests_nth [OF r]
    by (simp add: z)
  have a: "assigned (feasible_response 2 1 0) = (\<lambda>x. round_robin 2 1 x = 1)"
    by (simp add: assigned_def [abs_def] feasible_response_def round_robin_response_def)
  have f: "feasible m (round_robin 2 1)"
    by (rule round_robin_feasible [OF _ _ _ b]) simp_all
  have m0: "requests_met ?P 2 1 (\<lambda>x. round_robin 2 1 x = 1) = 0"
    by (subst met) (simp add: round_robin_1)
  have "objective_at m (round_robin 2 1) = 0"
    using objective_at_eq [OF b sh round_robin_boolean] m0 by simp
  with f have 1: "cp_sat_sound m (feasible_response 2 1 0)" by (rule feasible_response_sound)
  have 2: "status (feasible_response 2 1 0) = FEASIBLE" by (simp add: feasible_response_def)
  have 3: "valid_roster 2 1 (assigned (feasible_response 2 1 0))"
    using f by (simp add: feasible_valid_roster [OF b] a)
  from swapped_roster_feasible b have "feasible m swapped_roster" by simp
  then have 4: "valid_roster 2 1 (\<lambda>x. swapped_roster x = 1)"
    by (simp add: feasible_valid_roster [OF b])
  have 5: "requests_met ?P 2 1 (assigned (feasible_response 2 1 0)) = 0"
    by (simp only: a m0)
  have 6: "requests_met ?P 2 1 (\<lambda>x. swapped_roster x = 1) = 1"
    by (subst met) (simp add: swapped_roster_def)
  from b 1 2 3 4 5 6 show ?thesis by blast
qed

text \<open>
  C8. Ticking one more request never lowers the optimum: every assignment that satisfies
  the model before satisfies it after, with an objective at least as large, so the
  objective value of an optimal response after is at least that of one before.
\<close>

theorem more_requests_no_loss:
  assumes "1 \<le> N" and "1 \<le> S" and "shape_ok N S P"
    and "n < nat N" and "d < 7" and "s < nat S"
    and "build_model N S P = Inr (m, lo)"
    and "build_model N S (add_request P n d s) = Inr (m', lo')"
    and "cp_sat_sound m r" and "status r = OPTIMAL"
    and "cp_sat_sound m' r'" and "status r' = OPTIMAL"
  shows "objective_value r \<le> objective_value r'
         \<and> (\<forall>v. feasible m v \<longrightarrow> feasible m' v \<and> objective_at m v \<le> objective_at m' v)"
proof -
  have sh': "shape_ok N S (add_request P n d s)"
    using assms(3,4,5,6) by (rule shape_ok_add_request)
  have step: "feasible m' v \<and> objective_at m v \<le> objective_at m' v" if "feasible m v" for v
  proof -
    from that have b: "boolean_on (shift_vars N S) v" and f: "feasible m' v"
      by (simp_all add: feasible_valid_roster [OF assms(7)] feasible_valid_roster [OF assms(8)])
    have "objective_at m v \<le> objective_at m' v"
      using objective_at_eq [OF assms(7,3) b] objective_at_eq [OF assms(8) sh' b]
        requests_met_add_request [OF assms(3,4,5,6), of "\<lambda>x. v x = 1"]
      by simp
    with f show ?thesis by simp
  qed
  have st: "status r = OPTIMAL \<or> status r = FEASIBLE" using assms(10) by simp
  from sound_feasible [OF assms(9) st]
  have "feasible m (solution r)" and "objective_value r = objective_at m (solution r)" .
  moreover from step [OF \<open>feasible m (solution r)\<close>]
  have "feasible m' (solution r)" and "objective_at m (solution r) \<le> objective_at m' (solution r)"
    by simp_all
  moreover from sound_optimal [OF assms(11,12) \<open>feasible m' (solution r)\<close>]
  have "objective_at m' (solution r) \<le> objective_value r'" .
  ultimately have "objective_value r \<le> objective_value r'" by simp
  with step show ?thesis by blast
qed

theorem more_requests_no_loss_witness:
  "\<exists>m lo m' lo'.
      build_model 2 1 (no_requests 2 1) = Inr (m, lo)
      \<and> build_model 2 1 (add_request (no_requests 2 1) 0 0 0) = Inr (m', lo')
      \<and> \<not> no_requests 2 1 ! 0 ! 0 ! 0
      \<and> cp_sat_sound m (round_robin_response 2 1 0)
      \<and> cp_sat_sound m' (round_robin_response 2 1 1)
      \<and> objective_value (round_robin_response 2 1 0) \<le> objective_value (round_robin_response 2 1 1)"
proof -
  let ?P = "add_request (no_requests 2 1) 0 0 0"
  have sh: "shape_ok 2 1 ?P"
    by (rule shape_ok_add_request [OF shape_ok_no_requests]) simp_all
  obtain m lo where b: "build_model 2 1 (no_requests 2 1) = Inr (m, lo)"
    using build_no_requests [of 2 1] by auto
  obtain m' lo' where b': "build_model 2 1 ?P = Inr (m', lo')"
    using build_model_ok [OF _ sh] by auto
  have s: "cp_sat_sound m (round_robin_response 2 1 0)"
    by (rule no_requests_response_sound [OF _ _ _ b]) simp_all
  have s': "cp_sat_sound m' (round_robin_response 2 1 1)"
    by (rule one_request_response_sound [OF _ _ _ b']) simp_all
  have o: "status (round_robin_response 2 1 0) = OPTIMAL" "status (round_robin_response 2 1 1) = OPTIMAL"
    by (simp_all add: round_robin_response_def)
  have c: "\<not> no_requests 2 1 ! 0 ! 0 ! 0" by (simp add: no_requests_def)
  have "objective_value (round_robin_response 2 1 0) \<le> objective_value (round_robin_response 2 1 1)"
    using more_requests_no_loss [OF _ _ shape_ok_no_requests _ _ _ b b' s o(1) s' o(2)] by simp
  with b b' s s' c show ?thesis by blast
qed

text \<open>
  C2. The model holds an exactly-one constraint over the workers' variables of every day
  and shift. Whenever the engine answers \<open>OPTIMAL\<close> and keeps its contract, exactly one
  worker is assigned to every slot, and the roster that \<open>run_schedule\<close> returns has one
  row per shift whose cell of each day holds the label of that worker and of no other.
\<close>

theorem every_slot_covered:
  assumes "build_model N S P = Inr (m, lo)" and "cp_sat_sound m (solve m)"
    and "status (solve m) = OPTIMAL"
  shows "(\<forall>d<7. \<forall>s<nat S. ExactlyOne (map (\<lambda>n. (n, d, s)) (py_range N)) \<in> set (constraints m))
         \<and> coverage N S (assigned (solve m))
         \<and> (\<exists>out. run_schedule solve N S P = Inr out
               \<and> length (rows (table out)) = nat S
               \<and> (\<forall>d<7. \<forall>s<nat S. \<exists>n<nat N.
                     (\<forall>n'<nat N. assigned (solve m) (n', d, s) = (n' = n))
                     \<and> (\<forall>n'. (snd (rows (table out) ! s) ! d = Some (worker_label n')) = (n' = n))))"
proof -
  have st: "status (solve m) = OPTIMAL \<or> status (solve m) = FEASIBLE" using assms(3) by simp
  from sound_valid_roster(1) [OF assms(1,2) st]
  have cov: "coverage N S (assigned (solve m))" by (simp add: valid_roster_def)
  from optimal_cells [where solve = solve, OF assms] obtain out where
    r: "run_schedule solve N S P = Inr out"
    and f: "map fst (rows (table out)) = map (\<lambda>s. int s + 1) [0..<nat S]"
    and c: "\<forall>d<7. \<forall>s<nat S. \<exists>n<nat N.
                 (\<forall>n'<nat N. assigned (solve m) (n', d, s) = (n' = n))
                 \<and> snd (rows (table out) ! s) ! d = Some (worker_label n)
                 \<and> work_line P d (n, s) \<in> set (printed out)"
    by blast
  from f have "length (map fst (rows (table out))) = length (map (\<lambda>s. int s + 1) [0..<nat S])"
    by simp
  then have l: "length (rows (table out)) = nat S" by simp
  have "\<exists>n<nat N. (\<forall>n'<nat N. assigned (solve m) (n', d, s) = (n' = n))
           \<and> (\<forall>n'. (snd (rows (table out) ! s) ! d = Some (worker_label n')) = (n' = n))"
    if "d < 7" "s < nat S" for d s
  proof -
    from c that obtain n where n: "n < nat N"
      "\<forall>n'<nat N. assigned (solve m) (n', d, s) = (n' = n)"
      "snd (rows (table out) ! s) ! d = Some (worker_label n)"
      by blast
    have "(snd (rows (table out) ! s) ! d = Some (worker_label n')) = (n' = n)" for n'
      using n(3) worker_label_inj by auto
    with n show ?thesis by blast
  qed
  with cov r l coverage_constraint_mem [OF assms(1)] show ?thesis by blast
qed

theorem every_slot_covered_witness:
  "\<exists>m lo out. build_model 2 1 (no_requests 2 1) = Inr (m, lo)
      \<and> cp_sat_sound m (round_robin_response 2 1 0)
      \<and> status (round_robin_response 2 1 0) = OPTIMAL
      \<and> coverage 2 1 (assigned (round_robin_response 2 1 0))
      \<and> run_schedule (\<lambda>m. round_robin_response 2 1 0) 2 1 (no_requests 2 1) = Inr out
      \<and> length (rows (table out)) = 1"
proof -
  obtain m lo where b: "build_model 2 1 (no_requests 2 1) = Inr (m, lo)"
    using build_no_requests [of 2 1] by auto
  have s: "cp_sat_sound m (round_robin_response 2 1 0)"
    by (rule no_requests_response_sound [OF _ _ _ b]) simp_all
  have o: "status (round_robin_response 2 1 0) = OPTIMAL"
    by (simp add: round_robin_response_def)
  from every_slot_covered [where solve = "\<lambda>m. round_robin_response 2 1 0", OF b s o]
  obtain out where "coverage 2 1 (assigned (round_robin_response 2 1 0))"
    and "run_schedule (\<lambda>m. round_robin_response 2 1 0) 2 1 (no_requests 2 1) = Inr out"
    and "length (rows (table out)) = nat 1"
    by blast
  with b s o show ?thesis by auto
qed

text \<open>
  C6, as the code has it. The roster is filled only when the status is \<open>OPTIMAL\<close>: then,
  the engine keeping its contract, the table has the columns Shift, Mon, ..., Sun and one
  row of seven cells per shift, numbered from 1, and the cell of a day and shift holds
  the label \<open>Worker n+1\<close> of the one worker \<open>n\<close> whose variable is true. The printed lines
  are then, in full: \<open>Solution:\<close>; for each day
  in order the line \<open>Day d\<close>, one line for every assigned pair of worker and shift of
  that day, in the order of the workers and then of the shifts, which ends in
  \<open>(requested).\<close> exactly when \<open>shift_requests[n][d][s]\<close> is true and in
  \<open>(not requested).\<close> otherwise, and an empty line; the line with the objective; the
  statistics. For every other status, \<open>FEASIBLE\<close> included, the table has the single
  column Shift and no row.
\<close>

theorem optimal_roster_and_lines:
  assumes "shape_ok N S P" and "build_model N S P = Inr (m, lo)"
  shows "\<exists>out. run_schedule solve N S P = Inr out
           \<and> (status (solve m) \<noteq> OPTIMAL \<longrightarrow> table out = \<lparr>columns = [''Shift''], rows = []\<rparr>)
           \<and> (status (solve m) = OPTIMAL \<and> cp_sat_sound m (solve m) \<longrightarrow>
                columns (table out)
                  = [''Shift'', ''Mon'', ''Tue'', ''Wed'', ''Thu'', ''Fri'', ''Sat'', ''Sun'']
                \<and> map fst (rows (table out)) = map (\<lambda>s. int s + 1) [0..<nat S]
                \<and> (\<forall>s<nat S. length (snd (rows (table out) ! s)) = 7)
                \<and> (\<forall>d<7. \<forall>s<nat S. \<exists>n<nat N.
                      (\<forall>n'<nat N. assigned (solve m) (n', d, s) = (n' = n))
                      \<and> snd (rows (table out) ! s) ! d = Some (''Worker '' @ str_nat (n + 1)))
                \<and> printed out =
                    ''Solution:''
                    # concat (map (\<lambda>d. (''Day '' @ str_nat d)
                                        # map (\<lambda>(n, s). ''worker '' @ str_nat n @ '' works shift ''
                                                 @ str_nat s @
                                                 (if P ! n ! d ! s then '' (requested).''
                                                  else '' (not requested).''))
                                              (filter (\<lambda>(n, s). assigned (solve m) (n, d, s))
                                                      (List.product [0..<nat N] [0..<nat S]))
                                        @ [''''])
                                  [0..<7])
                    @ [''Number of shift requests met = '' @ objective_text (solve m)
                         @ '' (out of '' @ str_int (N * ((S * 7) div N)) @ '')'',
                       '''', ''Statistics'',
                       ''  - conflicts: '' @ str_int (num_conflicts (solve m)),
                       ''  - branches : '' @ str_int (num_branches (solve m)),
                       ''  - wall time: '' @ wall_time (solve m) @ ''s''])"
proof (cases "status (solve m) = OPTIMAL \<and> cp_sat_sound m (solve m)")
  case False
  show ?thesis
  proof (cases "status (solve m) = OPTIMAL")
    case True
    with False have "\<not> cp_sat_sound m (solve m)" by simp
    moreover have "\<exists>out. run_schedule solve N S P = Inr out"
      using assms(2) by (simp add: run_schedule_def Let_def)
    ultimately show ?thesis using True by blast
  next
    case False
    from run_schedule_not_optimal [where solve = solve, OF assms(2) False]
    show ?thesis using False by (simp add: empty_frame_def)
  qed
next
  case both: True
  then have True: "status (solve m) = OPTIMAL" and sound: "cp_sat_sound m (solve m)"
    by simp_all
  from True have st: "status (solve m) = OPTIMAL \<or> status (solve m) = FEASIBLE" by simp
  from sound_valid_roster(1) [OF assms(2) sound st]
  have cov: "coverage N S (assigned (solve m))" by (simp add: valid_roster_def)
  let ?out = "optimal_output P N S lo (solve m)"
  have r: "run_schedule solve N S P = Inr ?out"
    using assms(2) True cov by (rule run_schedule_optimal)
  from optimal_cells [where solve = solve, OF assms(2) sound True] r
  have h: "columns (table ?out) = ''Shift'' # map day_name all_days"
    and f: "map fst (rows (table ?out)) = map (\<lambda>s. int s + 1) [0..<nat S]"
    and c: "\<forall>d<7. \<forall>s<nat S. \<exists>n<nat N.
                 (\<forall>n'<nat N. assigned (solve m) (n', d, s) = (n' = n))
                 \<and> snd (rows (table ?out) ! s) ! d = Some (worker_label n)
                 \<and> work_line P d (n, s) \<in> set (printed ?out)"
    by auto
  from c have c': "\<forall>d<7. \<forall>s<nat S. \<exists>n<nat N.
                 (\<forall>n'<nat N. assigned (solve m) (n', d, s) = (n' = n))
                 \<and> snd (rows (table ?out) ! s) ! d = Some (''Worker '' @ str_nat (n + 1))"
    unfolding worker_label_def by blast
  have p: "printed ?out =
             ''Solution:''
             # concat (map (\<lambda>d. (''Day '' @ str_nat d)
                                 # map (\<lambda>(n, s). ''worker '' @ str_nat n @ '' works shift ''
                                          @ str_nat s @
                                          (if P ! n ! d ! s then '' (requested).''
                                           else '' (not requested).''))
                                       (filter (\<lambda>(n, s). assigned (solve m) (n, d, s))
                                               (List.product [0..<nat N] [0..<nat S]))
                                 @ [''''])
                           [0..<7])
             @ [''Number of shift requests met = '' @ objective_text (solve m)
                  @ '' (out of '' @ str_int (N * ((S * 7) div N)) @ '')'',
                '''', ''Statistics'',
                ''  - conflicts: '' @ str_int (num_conflicts (solve m)),
                ''  - branches : '' @ str_int (num_branches (solve m)),
                ''  - wall time: '' @ wall_time (solve m) @ ''s'']"
    using optimal_printed [OF assms(1), of lo "solve m"] lower_bound_is_floor [OF assms(2)]
    by simp
  from h have h': "columns (table ?out)
                     = [''Shift'', ''Mon'', ''Tue'', ''Wed'', ''Thu'', ''Fri'', ''Sat'', ''Sun'']"
    by (simp add: day_names)
  have l: "\<forall>s<nat S. length (snd (rows (table ?out) ! s)) = 7"
    by (simp add: optimal_output_def length_all_days)
  from r both h' f l c' p show ?thesis by blast
qed

theorem optimal_roster_and_lines_witness:
  "\<exists>m lo out. build_model 2 1 (add_request (no_requests 2 1) 0 0 0) = Inr (m, lo)
      \<and> cp_sat_sound m (round_robin_response 2 1 1)
      \<and> status (round_robin_response 2 1 1) = OPTIMAL
      \<and> run_schedule (\<lambda>m. round_robin_response 2 1 1) 2 1 (add_request (no_requests 2 1) 0 0 0) = Inr out
      \<and> map fst (rows (table out)) = [1]
      \<and> printed out =
          [''Solution:'',
           ''Day 0'', ''worker 0 works shift 0 (requested).'', '''',
           ''Day 1'', ''worker 1 works shift 0 (not requested).'', '''',
           ''Day 2'', ''worker 0 works shift 0 (not requested).'', '''',
           ''Day 3'', ''worker 1 works shift 0 (not requested).'', '''',
           ''Day 4'', ''worker 0 works shift 0 (not requested).'', '''',
           ''Day 5'', ''worker 1 works shift 0 (not requested).'', '''',
           ''Day 6'', ''worker 0 works shift 0 (not requested).'', '''',
           ''Number of shift requests met = 1.0 (out of 6)'',
           '''', ''Statistics'', ''  - conflicts: 0'', ''  - branches : 0'',
           ''  - wall time: 0.0s'']"
proof -
  let ?P = "add_request (no_requests 2 1) 0 0 0"
  let ?r = "round_robin_response 2 1 1"
  have sh: "shape_ok 2 1 ?P"
    by (rule shape_ok_add_request [OF shape_ok_no_requests]) simp_all
  obtain m lo where b: "build_model 2 1 ?P = Inr (m, lo)"
    using build_model_ok [OF _ sh] by auto
  have s: "cp_sat_sound m ?r"
    by (rule one_request_response_sound [OF _ _ _ b]) simp_all
  have o: "status ?r = OPTIMAL" by (simp add: round_robin_response_def)
  have t: "\<exists>out. run_schedule (\<lambda>m. ?r) 2 1 ?P = Inr out
           \<and> (status ?r \<noteq> OPTIMAL \<longrightarrow> table out = \<lparr>columns = [''Shift''], rows = []\<rparr>)
           \<and> (status ?r = OPTIMAL \<and> cp_sat_sound m ?r \<longrightarrow>
                columns (table out)
                  = [''Shift'', ''Mon'', ''Tue'', ''Wed'', ''Thu'', ''Fri'', ''Sat'', ''Sun'']
                \<and> map fst (rows (table out)) = map (\<lambda>s. int s + 1) [0..<nat 1]
                \<and> (\<forall>s<nat 1. length (snd (rows (table out) ! s)) = 7)
                \<and> (\<forall>d<7. \<forall>s<nat 1. \<exists>n<nat 2.
                      (\<forall>n'<nat 2. assigned ?r (n', d, s) = (n' = n))
                      \<and> snd (rows (table out) ! s) ! d = Some (''Worker '' @ str_nat (n + 1)))
                \<and> printed out =
                    ''Solution:''
                    # concat (map (\<lambda>d. (''Day '' @ str_nat d)
                                        # map (\<lambda>(n, s). ''worker '' @ str_nat n @ '' works shift ''
                                                 @ str_nat s @
                                                 (if ?P ! n ! d ! s then '' (requested).''
                                                  else '' (not requested).''))
                                              (filter (\<lambda>(n, s). assigned ?r (n, d, s))
                                                      (List.product [0..<nat 2] [0..<nat 1]))
                                        @ [''''])
                                  [0..<7])
                    @ [''Number of shift requests met = '' @ objective_text ?r
                         @ '' (out of '' @ str_int (2 * ((1 * 7) div 2)) @ '')'',
                       '''', ''Statistics'',
                       ''  - conflicts: '' @ str_int (num_conflicts ?r),
                       ''  - branches : '' @ str_int (num_branches ?r),
                       ''  - wall time: '' @ wall_time ?r @ ''s''])"
    (is "\<exists>out. ?R out \<and> ?NB out
            \<and> (?O \<longrightarrow> ?H out \<and> ?F out \<and> ?L out \<and> ?C out \<and> printed out = ?E)")
    by (rule optimal_roster_and_lines [where solve = "\<lambda>m. ?r", OF sh b])
  from t obtain out where r: "?R out"
    and i: "?O \<longrightarrow> ?H out \<and> ?F out \<and> ?L out \<and> ?C out \<and> printed out = ?E"
    by (elim exE conjE) (rule that)
  from o s have "?O" by (rule conjI)
  with i have c: "?H out \<and> ?F out \<and> ?L out \<and> ?C out \<and> printed out = ?E" by (rule mp)
  from c have f: "?F out" by (rule conjunct1 [OF conjunct2])
  from c have p: "printed out = ?E"
    by (rule conjunct2 [OF conjunct2 [OF conjunct2 [OF conjunct2]]])
  have e: "?E = [''Solution:'',
           ''Day 0'', ''worker 0 works shift 0 (requested).'', '''',
           ''Day 1'', ''worker 1 works shift 0 (not requested).'', '''',
           ''Day 2'', ''worker 0 works shift 0 (not requested).'', '''',
           ''Day 3'', ''worker 1 works shift 0 (not requested).'', '''',
           ''Day 4'', ''worker 0 works shift 0 (not requested).'', '''',
           ''Day 5'', ''worker 1 works shift 0 (not requested).'', '''',
           ''Day 6'', ''worker 0 works shift 0 (not requested).'', '''',
           ''Number of shift requests met = 1.0 (out of 6)'',
           '''', ''Statistics'', ''  - conflicts: 0'', ''  - branches : 0'',
           ''  - wall time: 0.0s'']"
    by code_simp
  from f have f': "map fst (rows (table out)) = [1]" by simp
  from p e have p': "printed out = [''Solution:'',
           ''Day 0'', ''worker 0 works shift 0 (requested).'', '''',
           ''Day 1'', ''worker 1 works shift 0 (not requested).'', '''',
           ''Day 2'', ''worker 0 works shift 0 (not requested).'', '''',
           ''Day 3'', ''worker 1 works shift 0 (not requested).'', '''',
           ''Day 4'', ''worker 0 works shift 0 (not requested).'', '''',
           ''Day 5'', ''worker 1 works shift 0 (not requested).'', '''',
           ''Day 6'', ''worker 0 works shift 0 (not requested).'', '''',
           ''Number of shift requests met = 1.0 (out of 6)'',
           '''', ''Statistics'', ''  - conflicts: 0'', ''  - branches : 0'',
           ''  - wall time: 0.0s'']"
    by (rule trans)
  from b s o r f' p' show ?thesis by (intro exI conjI)
qed

text \<open>
  C6 as stated fails for the status \<open>FEASIBLE\<close>: line 119 tests for \<open>OPTIMAL\<close> alone, so
  a feasible response, here one that assigns the only worker to every slot, leaves the
  table without rows.
\<close>

theorem feasible_roster_empty:
  "status (feasible_response 1 1 0) = FEASIBLE
   \<and> assigned (feasible_response 1 1 0) (0, 0, 0)
   \<and> (\<exists>m lo. build_model 1 1 (no_requests 1 1) = Inr (m, lo)
          \<and> cp_sat_sound m (feasible_response 1 1 0))
   \<and> run_schedule (\<lambda>m. feasible_response 1 1 0) 1 1 (no_requests 1 1) =
       Inr \<lparr>printed = [''No optimal solution found !'', '''', ''Statistics'',
                         ''  - conflicts: 0'', ''  - branches : 0'', ''  - wall time: 0.0s''],
            table = \<lparr>columns = [''Shift''], rows = []\<rparr>\<rparr>"
proof -
  have 1: "status (feasible_response 1 1 0) = FEASIBLE"
    by (simp add: feasible_response_def)
  have 2: "assigned (feasible_response 1 1 0) (0, 0, 0)"
    by (simp add: assigned_def feasible_response_def round_robin_response_def round_robin_def)
  obtain m lo where b: "build_model 1 1 (no_requests 1 1) = Inr (m, lo)"
    using build_no_requests [of 1 1] by auto
  have "cp_sat_sound m (round_robin_response 1 1 0)"
    by (rule no_requests_response_sound [OF _ _ _ b]) simp_all
  then have 3: "cp_sat_sound m (feasible_response 1 1 0)" by (rule sound_feasible_response)
  have 4: "run_schedule (\<lambda>m. feasible_response 1 1 0) 1 1 (no_requests 1 1) =
       Inr \<lparr>printed = [''No optimal solution found !'', '''', ''Statistics'',
                         ''  - conflicts: 0'', ''  - branches : 0'', ''  - wall time: 0.0s''],
            table = \<lparr>columns = [''Shift''], rows = []\<rparr>\<rparr>"
    by code_simp
  from 1 2 b 3 4 show ?thesis by blast
qed

text \<open>
  C7, as the code has it. With at least one worker (more exactly, a count other than 0)
  and a well-shaped request matrix the model is built without an exception, and for
  every response that is not \<open>OPTIMAL\<close> the function returns a table with the single
  column Shift and no row, after printing \<open>No optimal solution found !\<close> and the
  statistics. With more shifts a day than workers, as for 2 workers and 10 shifts, an
  engine that keeps its contract answers neither \<open>OPTIMAL\<close> nor \<open>FEASIBLE\<close>.
\<close>

theorem no_roster_without_optimum:
  assumes "N \<noteq> 0" and "shape_ok N S P"
  shows "\<exists>m lo. build_model N S P = Inr (m, lo)
           \<and> (status (solve m) \<noteq> OPTIMAL \<longrightarrow>
                run_schedule solve N S P =
                  Inr \<lparr>printed = ''No optimal solution found !'' # statistics_lines (solve m),
                       table = \<lparr>columns = [''Shift''], rows = []\<rparr>\<rparr>)
           \<and> (nat N < nat S \<and> cp_sat_sound m (solve m) \<longrightarrow>
                status (solve m) \<noteq> OPTIMAL \<and> status (solve m) \<noteq> FEASIBLE)"
proof -
  from build_model_ok [OF assms] obtain m lo where b: "build_model N S P = Inr (m, lo)"
    by blast
  have 1: "run_schedule solve N S P =
             Inr \<lparr>printed = ''No optimal solution found !'' # statistics_lines (solve m),
                  table = \<lparr>columns = [''Shift''], rows = []\<rparr>\<rparr>"
    if "status (solve m) \<noteq> OPTIMAL"
    using run_schedule_not_optimal [where solve = solve, OF b that] by (simp add: empty_frame_def)
  have 2: "status (solve m) \<noteq> OPTIMAL \<and> status (solve m) \<noteq> FEASIBLE"
    if "nat N < nat S" "cp_sat_sound m (solve m)"
  proof (rule ccontr)
    assume "\<not> (status (solve m) \<noteq> OPTIMAL \<and> status (solve m) \<noteq> FEASIBLE)"
    then have "status (solve m) = OPTIMAL \<or> status (solve m) = FEASIBLE" by simp
    with that(2) have "feasible m (solution (solve m))" by (rule sound_feasible(1))
    with b have "nat S \<le> nat N" by (rule feasible_imp_le)
    with that(1) show False by linarith
  qed
  from b 1 2 show ?thesis by blast
qed

theorem no_roster_without_optimum_witness:
  "\<exists>m lo. build_model 2 10 (no_requests 2 10) = Inr (m, lo)
      \<and> shape_ok 2 10 (no_requests 2 10)
      \<and> cp_sat_sound m (failed_response INFEASIBLE)
      \<and> run_schedule (\<lambda>m. failed_response INFEASIBLE) 2 10 (no_requests 2 10) =
          Inr \<lparr>printed = [''No optimal solution found !'', '''', ''Statistics'',
                            ''  - conflicts: 0'', ''  - branches : 0'', ''  - wall time: 0.0s''],
               table = \<lparr>columns = [''Shift''], rows = []\<rparr>\<rparr>"
proof -
  have n: "(2::int) \<noteq> 0" by simp
  have st: "status (failed_response INFEASIBLE) \<noteq> OPTIMAL" by (simp add: failed_response_def)
  from no_roster_without_optimum [where solve = "\<lambda>m. failed_response INFEASIBLE",
        OF n shape_ok_no_requests [of 2 10]] st
  obtain m lo where b: "build_model 2 10 (no_requests 2 10) = Inr (m, lo)"
    and r: "run_schedule (\<lambda>m. failed_response INFEASIBLE) 2 10 (no_requests 2 10) =
              Inr \<lparr>printed = ''No optimal solution found !''
                              # statistics_lines (failed_response INFEASIBLE),
                   table = \<lparr>columns = [''Shift''], rows = []\<rparr>\<rparr>"
    by blast
  have s: "cp_sat_sound m (failed_response INFEASIBLE)"
    by (rule sound_infeasible [OF b]) simp
  from b s r shape_ok_no_requests [of 2 10] show ?thesis by (simp add: statistics_failed)
qed

text \<open>
  C7 as stated fails in that the result does not carry the solve status: for 2 workers
  and 10 shifts an \<open>INFEASIBLE\<close> and an \<open>UNKNOWN\<close> response with the same statistics
  give the same printed lines and the same table.
\<close>

theorem status_not_in_result:
  "status (failed_response INFEASIBLE) \<noteq> status (failed_response UNKNOWN)
   \<and> (\<exists>m lo. build_model 2 10 (no_requests 2 10) = Inr (m, lo)
          \<and> cp_sat_sound m (failed_response INFEASIBLE)
          \<and> cp_sat_sound m (failed_response UNKNOWN))
   \<and> run_schedule (\<lambda>m. failed_response INFEASIBLE) 2 10 (no_requests 2 10)
       = run_schedule (\<lambda>m. failed_response UNKNOWN) 2 10 (no_requests 2 10)"
proof -
  have 1: "status (failed_response INFEASIBLE) \<noteq> status (failed_response UNKNOWN)"
    by (simp add: failed_response_def)
  obtain m lo where b: "build_model 2 10 (no_requests 2 10) = Inr (m, lo)"
    using build_no_requests [of 2 10] by auto
  have 2: "cp_sat_sound m (failed_response INFEASIBLE)"
    by (rule sound_infeasible [OF b]) simp
  have i: "status (failed_response INFEASIBLE) \<noteq> OPTIMAL"
    and u: "status (failed_response UNKNOWN) \<noteq> OPTIMAL"
    by (simp_all add: failed_response_def)
  have 3: "run_schedule (\<lambda>m. failed_response INFEASIBLE) 2 10 (no_requests 2 10)
       = run_schedule (\<lambda>m. failed_response UNKNOWN) 2 10 (no_requests 2 10)"
    using run_schedule_not_optimal [where solve = "\<lambda>m. failed_response INFEASIBLE", OF b i]
      run_schedule_not_optimal [where solve = "\<lambda>m. failed_response UNKNOWN", OF b u]
    by (simp add: statistics_failed)
  from 1 b 2 sound_unknown 3 show ?thesis by blast
qed

text \<open>
  C9, as the code has it. With no more shifts a day than workers and no request at all,
  an engine that keeps its contract and ends its search (\<open>OPTIMAL\<close> or \<open>INFEASIBLE\<close>)
  answers \<open>OPTIMAL\<close> with objective value 0, and every cell of the roster holds a
  worker's label.
\<close>

theorem all_false_optimal:
  assumes "1 \<le> N" and "1 \<le> S" and "S \<le> N" and "shape_ok N S P"
    and "\<forall>n<nat N. \<forall>d<7. \<forall>s<nat S. \<not> P ! n ! d ! s"
    and "build_model N S P = Inr (m, lo)" and "cp_sat_sound m (solve m)"
    and "status (solve m) = OPTIMAL \<or> status (solve m) = INFEASIBLE"
  shows "status (solve m) = OPTIMAL \<and> objective_value (solve m) = 0
         \<and> (\<exists>out. run_schedule solve N S P = Inr out
               \<and> length (rows (table out)) = nat S
               \<and> (\<forall>d<7. \<forall>s<nat S. \<exists>n<nat N.
                     snd (rows (table out) ! s) ! d = Some (worker_label n)))"
proof -
  have "feasible m (round_robin N S)" using assms(1,2,3,6) by (rule round_robin_feasible)
  with assms(7) have "status (solve m) \<noteq> INFEASIBLE" by (rule sound_not_infeasible)
  with assms(8) have o: "status (solve m) = OPTIMAL" by simp
  then have st: "status (solve m) = OPTIMAL \<or> status (solve m) = FEASIBLE" by simp
  from sound_valid_roster(2) [OF assms(6,7) st]
  have b: "boolean_on (shift_vars N S) (solution (solve m))" .
  have z: "objective_value (solve m) = 0"
    using sound_feasible(2) [OF assms(7) st] objective_at_eq [OF assms(6,4) b]
      requests_met_none [OF assms(5)]
    by simp
  from optimal_cells [where solve = solve, OF assms(6,7) o] obtain out where
    r: "run_schedule solve N S P = Inr out"
    and f: "map fst (rows (table out)) = map (\<lambda>s. int s + 1) [0..<nat S]"
    and c: "\<forall>d<7. \<forall>s<nat S. \<exists>n<nat N.
                 (\<forall>n'<nat N. assigned (solve m) (n', d, s) = (n' = n))
                 \<and> snd (rows (table out) ! s) ! d = Some (worker_label n)
                 \<and> work_line P d (n, s) \<in> set (printed out)"
    by blast
  from f have "length (map fst (rows (table out))) = length (map (\<lambda>s. int s + 1) [0..<nat S])"
    by simp
  then have l: "length (rows (table out)) = nat S" by simp
  from c have "\<forall>d<7. \<forall>s<nat S. \<exists>n<nat N. snd (rows (table out) ! s) ! d = Some (worker_label n)"
    by blast
  with o z r l show ?thesis by blast
qed

theorem all_false_optimal_witness:
  "\<exists>m lo out. build_model 2 1 (no_requests 2 1) = Inr (m, lo)
      \<and> cp_sat_sound m (round_robin_response 2 1 0)
      \<and> objective_value (round_robin_response 2 1 0) = 0
      \<and> run_schedule (\<lambda>m. round_robin_response 2 1 0) 2 1 (no_requests 2 1) = Inr out
      \<and> length (rows (table out)) = 1"
proof -
  obtain m lo where b: "build_model 2 1 (no_requests 2 1) = Inr (m, lo)"
    using build_no_requests [of 2 1] by auto
  have s: "cp_sat_sound m (round_robin_response 2 1 0)"
    by (rule no_requests_response_sound [OF _ _ _ b]) simp_all
  have o: "status (round_robin_response 2 1 0) = OPTIMAL \<or> status (round_robin_response 2 1 0) = INFEASIBLE"
    by (simp add: round_robin_response_def)
  have f: "\<forall>n<nat 2. \<forall>d<7. \<forall>s<nat 1. \<not> no_requests 2 1 ! n ! d ! s"
    by (simp add: no_requests_nth)
  have N: "(1::int) \<le> 2" and S: "(1::int) \<le> 1" by simp_all
  from all_false_optimal [where solve = "\<lambda>m. round_robin_response 2 1 0",
        OF N S N shape_ok_no_requests f b s o]
  obtain out where "objective_value (round_robin_response 2 1 0) = 0"
    and "run_schedule (\<lambda>m. round_robin_response 2 1 0) 2 1 (no_requests 2 1) = Inr out"
    and "length (rows (table out)) = nat 1"
    by blast
  with b s show ?thesis by auto
qed

text \<open>
  C9 as stated fails when there are more shifts a day than workers: for 1 worker and 2
  shifts, with no request, no assignment satisfies the model, so no response that keeps
  the contract is \<open>OPTIMAL\<close>, while \<open>INFEASIBLE\<close> is a sound answer.
\<close>

theorem all_false_infeasible:
  "\<exists>m lo. build_model 1 2 (no_requests 1 2) = Inr (m, lo)
      \<and> cp_sat_sound m (failed_response INFEASIBLE)
      \<and> \<not> (\<exists>r. cp_sat_sound m r \<and> status r = OPTIMAL)"
proof -
  obtain m lo where b: "build_model 1 2 (no_requests 1 2) = Inr (m, lo)"
    using build_no_requests [of 1 2] by auto
  have 1: "cp_sat_sound m (failed_response INFEASIBLE)"
    by (rule sound_infeasible [OF b]) simp
  have "status r \<noteq> OPTIMAL" if "cp_sat_sound m r" for r
  proof
    assume "status r = OPTIMAL"
    then have "status r = OPTIMAL \<or> status r = FEASIBLE" by simp
    with that have "feasible m (solution r)" by (rule sound_feasible(1))
    with b have "nat 2 \<le> nat 1" by (rule feasible_imp_le)
    then show False by simp
  qed
  with b 1 show ?thesis by blast
qed

end
